theory Spec2Isabelle
  imports Main "HOL-Library.Word" "HOL-Library.Signed_Division" "HOL-Library.Monad_Syntax"
begin

unbundle bit_operations_syntax

section \<open>Machine types of the target (AVR ATtiny85)\<close>

text \<open>
  On the AVR target \<open>byte\<close> is 8 bits unsigned, \<open>int\<close> is 16 bits signed,
  \<open>unsigned int\<close> is 16 bits and \<open>unsigned long\<close> is 32 bits. Arithmetic on the
  unsigned types wraps around; \<open>div\<close> and \<open>mod\<close> on words are the unsigned ones.
\<close>

type_synonym byte = "8 word"
type_synonym int16 = "16 word"
type_synonym uint = "16 word"
type_synonym ulong = "32 word"

section \<open>Font\<close>

definition FWIDTH :: nat where
  "FWIDTH = 3"

definition FOFFSET :: int where
  "FOFFSET = 48"

text \<open>The table \<open>font[]\<close>: three column bytes per glyph, from \<open>'0'\<close> to \<open>'Z'\<close>.\<close>

definition font :: "byte list" where
  "font =
    [0x7f, 0x41, 0x7f,  0x42, 0x7f, 0x40,  0x79, 0x49, 0x4f,  0x49, 0x49, 0x7f,
     0x0f, 0x08, 0x7f,  0x4f, 0x49, 0x79,  0x7f, 0x49, 0x78,  0x03, 0x01, 0x7f,
     0x7f, 0x49, 0x7f,  0x0f, 0x49, 0x7f,  0x00, 0x14, 0x00,  0x00, 0x00, 0x00,
     0x08, 0x1c, 0x3e,  0x00, 0x40, 0x00,  0x3e, 0x1c, 0x08,  0x04, 0x06, 0x7f,
     0x7f, 0x06, 0x04,  0x7f, 0x09, 0x7f,  0x7f, 0x49, 0x7f,  0x7f, 0x41, 0x41,
     0x7f, 0x41, 0x7e,  0x7f, 0x49, 0x49,  0x7f, 0x09, 0x09,  0x7f, 0x41, 0x79,
     0x7f, 0x08, 0x7f,  0x41, 0x7f, 0x41,  0x60, 0x40, 0x7f,  0x7f, 0x1c, 0x77,
     0x7f, 0x40, 0x40,  0x7f, 0x07, 0x7f,  0x7f, 0x0e, 0x7f,  0x7f, 0x41, 0x7f,
     0x7f, 0x09, 0x0f,  0x7f, 0x61, 0x7f,  0x7f, 0x19, 0x6f,  0x4f, 0x49, 0x79,
     0x01, 0x7f, 0x01,  0x7f, 0x40, 0x7f,  0x3f, 0x60, 0x3f,  0x7f, 0x70, 0x7f,
     0x77, 0x1c, 0x77,  0x0f, 0x78, 0x0f,  0x71, 0x49, 0x47]"

text \<open>
  \<open>pgm_read_byte(font + k)\<close>. The C code computes \<open>k\<close> in \<open>int\<close>; a read outside the
  table has no defined result and is the value \<open>None\<close> here.
\<close>

definition pgm_read_font :: "int \<Rightarrow> byte option" where
  "pgm_read_font k = (if 0 \<le> k \<and> k < int (length font) then Some (font ! nat k) else None)"

section \<open>Display\<close>

definition DWIDTH :: nat where
  "DWIDTH = 32"

definition DLINES :: nat where
  "DLINES = 3"

definition XOFF :: byte where
  "XOFF = 32"

text \<open>
  What the firmware sends to the display controller over the two-wire bus: a command
  transmission (the bytes after the control byte \<open>0x00\<close>) or one pixel data byte (sent
  after the control byte \<open>0x40\<close>). How the transport splits the data bytes into
  transmissions when its buffer is full is its own matter and is not recorded.
\<close>

datatype bus = Cmd "byte list" | Dat byte

definition dsendcmd :: "byte \<Rightarrow> bus list \<Rightarrow> bus list" where
  "dsendcmd cmd w = w @ [Cmd [cmd]]"

definition dsenddatabyte :: "byte \<Rightarrow> bus list \<Rightarrow> bus list" where
  "dsenddatabyte d w = w @ [Dat d]"

definition setpage :: "byte \<Rightarrow> bus list \<Rightarrow> bus list" where
  "setpage page w = w @ [Cmd [0x20, 0x01, 0x21, XOFF, XOFF + 64, 0x22, page, page]]"

definition doff :: "bus list \<Rightarrow> bus list" where
  "doff w = dsendcmd 0xAE w"

definition don :: "bus list \<Rightarrow> bus list" where
  "don w = dsendcmd 0xAF w"

text \<open>
  The framebuffer \<open>dbuf\<close> is a list of bytes; the C array has \<open>DWIDTH * DLINES\<close>
  elements. An access outside the array is the value \<open>None\<close>.
\<close>

definition dbuf_write :: "nat \<Rightarrow> byte \<Rightarrow> byte list \<Rightarrow> byte list option" where
  "dbuf_write i v buf = (if i < length buf then Some (buf[i := v]) else None)"

definition dbuf_read :: "byte list \<Rightarrow> nat \<Rightarrow> byte option" where
  "dbuf_read buf i = (if i < length buf then Some (buf ! i) else None)"

text \<open>A counted \<open>for\<close> loop whose body may fail: the indices in order, stopping at \<open>None\<close>.\<close>

fun for_each :: "nat list \<Rightarrow> (nat \<Rightarrow> 's \<Rightarrow> 's option) \<Rightarrow> 's \<Rightarrow> 's option" where
  "for_each [] body s = Some s"
| "for_each (i # is) body s = Option.bind (body i s) (for_each is body)"

definition dbuffill :: "byte \<Rightarrow> byte list \<Rightarrow> byte list option" where
  "dbuffill n buf = for_each [0..<DWIDTH * DLINES] (\<lambda>i. dbuf_write i n) buf"

text \<open>\<open>expand4bit\<close>: the three assignments of the C body, on an 8-bit value.\<close>

definition expand4bit :: "byte \<Rightarrow> byte" where
  "expand4bit b0 =
     (let b1 = (b0 OR push_bit 2 b0) AND 0x33;
          b2 = (b1 OR push_bit 1 b1) AND 0x55
      in b2 OR push_bit 1 b2)"

definition ddisplaypage :: "byte \<Rightarrow> byte list \<Rightarrow> bus list \<Rightarrow> bus list option" where
  "ddisplaypage page buf w =
     for_each [0..<DWIDTH]
       (\<lambda>j w'. do {
          v \<leftarrow> dbuf_read buf ((unat page div 2) * DWIDTH + j);
          let tmp = expand4bit (drop_bit ((unat page mod 2) * 4) v AND 0x0f);
          Some (dsenddatabyte tmp (dsenddatabyte tmp w'))
        })
       (setpage page w)"

definition ddisplay :: "byte list \<Rightarrow> bus list \<Rightarrow> bus list option" where
  "ddisplay buf w =
     for_each [0..<DLINES]
       (\<lambda>i w'. do {
          w'' \<leftarrow> ddisplaypage (word_of_nat (2 * i)) buf w';
          ddisplaypage (word_of_nat (2 * i + 1)) buf w''
        })
       w"

definition printcat :: "byte \<Rightarrow> byte \<Rightarrow> byte \<Rightarrow> byte \<Rightarrow> byte \<Rightarrow> byte list \<Rightarrow> byte list option" where
  "printcat c x y width height buf =
     for_each [0..<unat height]
       (\<lambda>k. for_each [0..<FWIDTH]
          (\<lambda>i b. do {
             t \<leftarrow> pgm_read_font (int FWIDTH * (uint c - FOFFSET) + int i);
             let tmp = (if height = 2 then expand4bit (drop_bit (4 * k) t AND 0x0f) else t);
             for_each [0..<unat width]
               (\<lambda>j. dbuf_write (unat x + (unat width * i + j) + (unat y + k) * DWIDTH) tmp) b
           }))
       buf"

section \<open>Application state\<close>

text \<open>The macros \<open>_ones\<close>, \<open>_tens\<close> and \<open>_huns\<close>, on C \<open>int\<close> operands (division truncates).\<close>

definition ones :: "int \<Rightarrow> int" where
  "ones x = x smod 10"

definition tens :: "int \<Rightarrow> int" where
  "tens x = (x sdiv 10) smod 10"

definition huns :: "int \<Rightarrow> int" where
  "huns x = (x sdiv 100) smod 10"

definition TIMEOUT :: ulong where
  "TIMEOUT = 5000"

definition TIME1224 :: ulong where
  "TIME1224 = 24"

text \<open>The table \<open>wday[]\<close>: MO TU WE TH FR SA SU as character codes.\<close>

definition wday :: "byte list" where
  "wday = [77, 79, 84, 85, 87, 69, 84, 72, 70, 82, 83, 65, 83, 85]"

definition pgm_read_wday :: "nat \<Rightarrow> byte option" where
  "pgm_read_wday k = (if k < length wday then Some (wday ! k) else None)"

text \<open>
  The global variables of the sketch, with two parts of the environment the code reads
  and writes: \<open>millis\<close>, the value of the Arduino millisecond clock, and \<open>wire\<close>, what
  has been sent to the display so far.
\<close>

record watch =
  tim :: ulong
  outtime :: ulong
  issleep :: bool
  setstate :: byte
  vcc :: int16
  wdtmillisperinterrupt :: uint
  wdtmillis :: ulong
  weekday :: byte
  dbuf :: "byte list"
  millis :: ulong
  wire :: "bus list"

section \<open>Delays\<close>

lemma ucast_succ: "(ucast (x + 1 :: ulong) :: byte) = ucast x + 1"
  by (simp add: unsigned_ucast_eq word_eq_iff_unsigned [where ?'a = nat] unat_word_ariths
      take_bit_eq_mod mod_simps mod_mod_cancel)

lemma byte_succ:
  assumes "(a::byte) < ms"
  shows "unat (a + 1) = Suc (unat a)"
proof -
  have "unat a < unat ms" using assms by (simp add: word_less_nat_alt)
  moreover have "unat ms < 256" using unsigned_less [of ms, where ?'a = nat] by simp
  ultimately have "unat a + unat (1::byte) < 2 ^ LENGTH(8)" by simp
  then show ?thesis by (simp only: unat_add_lem [THEN iffD1]) simp
qed

lemma poll_measure:
  assumes "(ucast (now - t :: ulong) :: byte) < ms"
  shows "unat ms - unat (ucast (now + 1 - t) :: byte) < unat ms - unat (ucast (now - t) :: byte)"
proof -
  have "now + 1 - t = (now - t) + 1" by simp
  then have "(ucast (now + 1 - t) :: byte) = ucast (now - t) + 1" by (simp only: ucast_succ)
  moreover have "unat (ucast (now - t) :: byte) < unat ms"
    using assms by (simp add: word_less_nat_alt)
  ultimately show ?thesis using byte_succ [OF assms] by simp
qed

text \<open>
  The busy-wait of \<open>delayshort\<close>: \<open>while ((byte)(millis() - t) < ms) ;\<close>. The clock is
  the environment's; here it advances by one millisecond from one poll to the next, so
  that the loop is a recursion on the clock value.
\<close>

function delayshort_poll :: "ulong \<Rightarrow> byte \<Rightarrow> ulong \<Rightarrow> ulong" where
  "delayshort_poll t ms now =
     (if (ucast (now - t) :: byte) < ms then delayshort_poll t ms (now + 1) else now)"
  by pat_completeness auto
termination
  by (relation "measure (\<lambda>(t, ms, now). unat ms - unat (ucast (now - t) :: byte))")
     (auto simp: poll_measure)

declare delayshort_poll.simps [simp del]

definition delayshort :: "byte \<Rightarrow> watch \<Rightarrow> watch" where
  "delayshort ms st = st\<lparr>millis := delayshort_poll (millis st) ms (millis st)\<rparr>"

fun delaylong_loop :: "nat \<Rightarrow> watch \<Rightarrow> watch" where
  "delaylong_loop 0 st = st"
| "delaylong_loop (Suc n) st = delaylong_loop n (delayshort 250 st)"

definition delaylong :: "byte \<Rightarrow> watch \<Rightarrow> watch" where
  "delaylong n st = delaylong_loop (unat n) st"

section \<open>Battery, timeout, sleep, interrupts\<close>

text \<open>
  \<open>batt\<close>: the two result registers of the converter are inputs. \<open>(high << 8) | low\<close> is
  computed in \<open>int\<close>, the quotient \<open>112530L / \<dots>\<close> in \<open>long\<close> and cut to \<open>int\<close> on
  return; a zero reading divides by zero, the value \<open>None\<close>.
\<close>

definition batt :: "byte \<Rightarrow> byte \<Rightarrow> watch \<Rightarrow> (watch \<times> int16) option" where
  "batt low high st =
     (let st' = delayshort 2 st;
          d = sint ((push_bit 8 (ucast high) OR ucast low) :: int16)
      in if d = 0 then None else Some (st', word_of_int (112530 sdiv d)))"

definition setdtimeout :: "watch \<Rightarrow> watch" where
  "setdtimeout st = st\<lparr>outtime := millis st + TIMEOUT\<rparr>"

definition setsleep :: "watch \<Rightarrow> watch option" where
  "setsleep st = do {
     b \<leftarrow> dbuffill 0x00 (dbuf st);
     let st1 = st\<lparr>setstate := 0, dbuf := b\<rparr>;
     let st2 = st1\<lparr>wire := doff (wire st1)\<rparr>;
     let st3 = delayshort 2 st2;
     Some (st3\<lparr>issleep := True\<rparr>)
   }"

text \<open>
  \<open>sleep\<close> halts the processor until an interrupt; the interrupt handlers are steps of
  their own, so the call itself leaves the variables as they are.
\<close>

definition sleep :: "watch \<Rightarrow> watch" where
  "sleep st = st"

text \<open>\<open>ISR(WDT_vect)\<close>: the watchdog timer wakeup.\<close>

definition isr_wdt :: "watch \<Rightarrow> watch" where
  "isr_wdt st = st\<lparr>wdtmillis := wdtmillis st + ucast (wdtmillisperinterrupt st)\<rparr>"

text \<open>\<open>ISR(PCINT0_vect)\<close>: the pin change (button edge) wakeup.\<close>

definition isr_pcint0 :: "watch \<Rightarrow> watch" where
  "isr_pcint0 st =
     (if issleep st then
        (let st1 = setdtimeout st;
             st2 = st1\<lparr>wire := don (wire st1)\<rparr>
         in st2\<lparr>issleep := False\<rparr>)
      else st)"

section \<open>Printing\<close>

definition printhm :: "byte \<Rightarrow> byte \<Rightarrow> byte list \<Rightarrow> byte list option" where
  "printhm n x buf = do {
     b \<leftarrow> printcat (word_of_int (tens (uint n) + FOFFSET)) x 0 2 2 buf;
     printcat (word_of_int (ones (uint n) + FOFFSET)) (x + 8) 0 2 2 b
   }"

definition prints :: "byte \<Rightarrow> byte list \<Rightarrow> byte list option" where
  "prints s buf = do {
     b \<leftarrow> printcat (word_of_int (tens (uint s) + FOFFSET)) 0 2 1 1 buf;
     printcat (word_of_int (ones (uint s) + FOFFSET)) 4 2 1 1 b
   }"

text \<open>The glyphs \<open>'?'\<close> (63) and \<open>'@'\<close> (64) are the two halves of the setting arrow.\<close>

definition printarrow :: "byte \<Rightarrow> byte list \<Rightarrow> byte list option" where
  "printarrow x buf = do {
     b \<leftarrow> printcat 63 x 2 1 1 buf;
     printcat 64 (x + 3) 2 1 1 b
   }"

text \<open>
  \<open>printscreen\<close>, statement by statement. Character codes: \<open>':'\<close> is 58, \<open>'<'\<close> is 60,
  \<open>'='\<close> is 61, \<open>'>'\<close> is 62. The function assigns the global \<open>weekday\<close> when the setting
  state is 0 or 6.
\<close>

definition printscreen :: "watch \<Rightarrow> watch option" where
  "printscreen st = do {
     b0 \<leftarrow> dbuffill 0x00 (dbuf st);
     b1 \<leftarrow> printcat 58 13 0 2 2 b0;
     b2 \<leftarrow> printhm (ucast ((tim st div 1000 div 60 div 60) mod TIME1224)) 0 b1;
     b3 \<leftarrow> printhm (ucast ((tim st div 1000 div 60) mod 60)) 18 b2;
     b4 \<leftarrow> (if setstate st < 2 \<and> setstate st \<noteq> 6
            then prints (ucast ((tim st div 1000) mod 60)) b3 else Some b3);
     let wd = (if setstate st = 0 \<or> setstate st = 6
               then ucast ((tim st div 1000 div 60 div 60 div 24) mod 7) else weekday st);
     b5 \<leftarrow> (if setstate st = 0 \<or> setstate st = 6
            then do {
              c1 \<leftarrow> pgm_read_wday (2 * unat wd);
              b \<leftarrow> printcat c1 11 2 1 1 b4;
              c2 \<leftarrow> pgm_read_wday (2 * unat wd + 1);
              printcat c2 15 2 1 1 b
            }
            else Some b4);
     b6 \<leftarrow> (if setstate st = 1 then printcat 60 8 2 1 1 b5
            else if setstate st = 2 then printarrow 26 b5
            else if setstate st = 3 then printarrow 18 b5
            else if setstate st = 4 then printarrow 8 b5
            else if setstate st = 5 then printarrow 0 b5
            else if setstate st = 6 then printcat 62 7 2 1 1 b5
            else do {
              b \<leftarrow> printcat (word_of_int (huns (sint (vcc st)) + FOFFSET)) 23 2 1 1 b5;
              b' \<leftarrow> printcat 61 26 2 1 1 b;
              printcat (word_of_int (tens (sint (vcc st)) + FOFFSET)) 29 2 1 1 b'
            });
     w \<leftarrow> ddisplay b6 (wire st);
     Some (st\<lparr>weekday := wd, dbuf := b6, wire := w\<rparr>)
   }"

section \<open>The main loop\<close>

text \<open>\<open>tim += wdtmillis; wdtmillis = 0;\<close>\<close>

definition drain :: "watch \<Rightarrow> watch" where
  "drain st = st\<lparr>tim := tim st + wdtmillis st, wdtmillis := 0\<rparr>"

text \<open>The branch of a long press: \<open>delaylong(2); if (setstate++ > 5) setstate = 0;\<close>\<close>

definition longpress :: "watch \<Rightarrow> watch" where
  "longpress st =
     (let st' = delaylong 2 st
      in st'\<lparr>setstate := (if setstate st' > 5 then 0 else setstate st' + 1)\<rparr>)"

text \<open>The branch of a short press: the \<open>if\<close> chain on \<open>setstate\<close>.\<close>

definition shortpress :: "watch \<Rightarrow> watch" where
  "shortpress st =
     (if setstate st = 1 then st\<lparr>tim := tim st - ((tim st div 1000) mod 60) * 1000\<rparr>
      else if setstate st = 2 then st\<lparr>tim := tim st + 60000\<rparr>
      else if setstate st = 3 then st\<lparr>tim := tim st + 600000\<rparr>
      else if setstate st = 4 then st\<lparr>tim := tim st + 3600000\<rparr>
      else if setstate st = 5 then st\<lparr>tim := tim st + 36000000\<rparr>
      else if setstate st = 6
        then st\<lparr>weekday := (if weekday st > 5 then 0 else weekday st + 1)\<rparr>
      else st)"

text \<open>
  What one pass of \<open>loop\<close> reads from outside: the level of the button at the two
  \<open>digitalRead\<close> calls (\<open>True\<close> for \<open>LOW\<close>, pressed) and the converter's result registers.
\<close>

record inputs =
  btn_first :: bool
  btn_second :: bool
  adcl :: byte
  adch :: byte

definition loop :: "inputs \<Rightarrow> watch \<Rightarrow> watch option" where
  "loop inp st =
     (if issleep st then Some (sleep st)
      else if millis st > outtime st then setsleep st
      else do {
        st1 \<leftarrow> printscreen (drain st);
        if btn_first inp then do {
          let st2 = delaylong 2 (setdtimeout st1);
          (st3, v) \<leftarrow> batt (adcl inp) (adch inp) st2;
          let st4 = st3\<lparr>vcc := v\<rparr>;
          if btn_second inp then Some (longpress st4) else Some (shortpress st4)
        }
        else Some st1
      })"

section \<open>Start-up\<close>

definition CONTRAST :: byte where
  "CONTRAST = 0x80"

definition dinit :: "byte list" where
  "dinit = [0xA8, 0x3F, 0xDA, 0x12, 0x8D, 0x14, 0x81, CONTRAST, 0xAF]"

definition bootscreen :: "bus list \<Rightarrow> bus list" where
  "bootscreen w = foldl (\<lambda>w' c. dsendcmd c w') w dinit"

text \<open>
  The variables as their initialisers set them at reset (statics without an initialiser
  are zero), with the clock at \<open>now\<close> and nothing sent yet.
\<close>

definition power_on :: "ulong \<Rightarrow> watch" where
  "power_on now =
     \<lparr>tim = 0, outtime = 0, issleep = False, setstate = 0, vcc = 0,
      wdtmillisperinterrupt = 1072, wdtmillis = 0, weekday = 0,
      dbuf = replicate (DWIDTH * DLINES) 0, millis = now, wire = []\<rparr>"

text \<open>\<open>setup\<close> (the name is an Isabelle keyword, hence the suffix).\<close>

definition setup_watch :: "byte \<Rightarrow> byte \<Rightarrow> watch \<Rightarrow> watch option" where
  "setup_watch low high st = do {
     b \<leftarrow> dbuffill 0x00 (dbuf st);
     let st1 = setdtimeout (st\<lparr>dbuf := b, wire := bootscreen (wire st)\<rparr>);
     (st2, v) \<leftarrow> batt low high st1;
     Some (st2\<lparr>vcc := v\<rparr>)
   }"

section \<open>Nibble expansion\<close>

text \<open>
  The table of \<open>expand4bit\<close> as the comments of the C function document it
  (\<open>0000abcd\<close> becomes \<open>aabbccdd\<close>), for the sixteen nibbles in order.
\<close>

definition nibble_table :: "byte list" where
  "nibble_table = [0x00, 0x03, 0x0C, 0x0F, 0x30, 0x33, 0x3C, 0x3F,
                   0xC0, 0xC3, 0xCC, 0xCF, 0xF0, 0xF3, 0xFC, 0xFF]"

lemma nibble_cases:
  assumes "(v::byte) < 16"
  shows "v \<in> {0, 1, 2, 3, 4, 5, 6, 7, 8, 9, 10, 11, 12, 13, 14, 15}"
proof -
  have "unat v < 16" using assms by (simp add: word_less_nat_alt)
  then have "unat v \<in> {0, 1, 2, 3, 4, 5, 6, 7, 8, 9, 10, 11, 12, 13, 14, 15}"
    by simp arith
  then have "word_of_nat (unat v)
      \<in> (word_of_nat ` {0, 1, 2, 3, 4, 5, 6, 7, 8, 9, 10, 11, 12, 13, 14, 15} :: byte set)"
    by (rule imageI)
  then show ?thesis by simp
qed

lemma index_cases: "(i::nat) < 4 \<Longrightarrow> i \<in> {0, 1, 2, 3}"
  by auto

text \<open>
  C9. For every nibble \<open>v\<close> (0..15) and every bit position \<open>i\<close> of it, the result of
  \<open>expand4bit\<close> carries bit \<open>i\<close> of \<open>v\<close> at the two positions \<open>2 i\<close> and \<open>2 i + 1\<close>, and
  the result is the entry of the documented table.
\<close>

theorem expand4bit_doubles:
  assumes "v < 16" and "i < 4"
  shows "bit (expand4bit v) (2 * i) = bit v i \<and> bit (expand4bit v) (2 * i + 1) = bit v i
         \<and> expand4bit v = nibble_table ! unat v"
  using nibble_cases [OF assms(1)] index_cases [OF assms(2)]
  by (elim insertE emptyE) (simp_all add: expand4bit_def nibble_table_def Let_def)

theorem expand4bit_doubles_witness:
  "bit (expand4bit 5) 2 = bit (5::byte) 1 \<and> bit (expand4bit 5) 3 = bit (5::byte) 1
   \<and> expand4bit 5 = 0x33 \<and> expand4bit 0 = 0x00 \<and> expand4bit 15 = 0xFF"
  using expand4bit_doubles [of 5 1] expand4bit_doubles [of 0 0] expand4bit_doubles [of 15 3]
  by (simp add: nibble_table_def)

section \<open>Long press\<close>

lemma setstate_delayshort [simp]: "setstate (delayshort ms st) = setstate st"
  by (simp add: delayshort_def)

lemma setstate_delaylong_loop [simp]: "setstate (delaylong_loop n st) = setstate st"
  by (induction n arbitrary: st) simp_all

lemma setstate_longpress:
  "setstate (longpress st) = (if setstate st > 5 then 0 else setstate st + 1)"
  by (simp add: longpress_def delaylong_def Let_def)

lemma byte_le6_cases:
  assumes "(s::byte) \<le> 6"
  shows "s \<in> {0, 1, 2, 3, 4, 5, 6}"
proof -
  have "unat s \<le> 6" using assms by (simp add: word_le_nat_alt)
  then have "unat s \<in> {0, 1, 2, 3, 4, 5, 6}" by simp arith
  then have "word_of_nat (unat s) \<in> (word_of_nat ` {0, 1, 2, 3, 4, 5, 6} :: byte set)"
    by (rule imageI)
  then show ?thesis by simp
qed

lemma longpress_step:
  assumes "setstate st \<le> 6"
  shows "setstate (longpress st) \<le> 6
         \<and> unat (setstate (longpress st)) = (unat (setstate st) + 1) mod 7"
  using byte_le6_cases [OF assms]
  by (elim insertE emptyE) (simp_all add: setstate_longpress)

lemma longpress_iter:
  assumes "setstate st \<le> 6"
  shows "setstate ((longpress ^^ n) st) \<le> 6 \<and>
         unat (setstate ((longpress ^^ n) st)) = (unat (setstate st) + n) mod 7"
proof (induction n)
  case 0
  have "unat (setstate st) \<le> 6" using assms by (simp add: word_le_nat_alt)
  then show ?case using assms by simp
next
  case (Suc n)
  then show ?case using longpress_step [of "(longpress ^^ n) st"]
    by (simp add: mod_Suc_eq)
qed

text \<open>
  C5. From a setting state in 0..6, the state after \<open>n\<close> long presses is the start state
  plus \<open>n\<close> modulo 7: the states run 0, 1, \<dots>, 6, 0, \<dots>, every one of them is in 0..6,
  and a long press in state 6 gives state 0.
\<close>

theorem longpress_cycles:
  assumes "setstate st \<le> 6"
  shows "setstate ((longpress ^^ n) st) \<le> 6
         \<and> unat (setstate ((longpress ^^ n) st)) = (unat (setstate st) + n) mod 7
         \<and> (setstate st = 6 \<longrightarrow> setstate (longpress st) = 0)"
  using longpress_iter [OF assms, of n] by (simp add: setstate_longpress)

theorem longpress_cycles_witness:
  "map (\<lambda>n. unat (setstate ((longpress ^^ n) (power_on 0)))) [0, 1, 2, 3, 4, 5, 6, 7, 8]
     = [0, 1, 2, 3, 4, 5, 6, 0, 1]
   \<and> setstate (longpress (power_on 0\<lparr>setstate := 6\<rparr>)) = 0"
  using longpress_cycles [of "power_on 0" 0] longpress_cycles [of "power_on 0" 1]
    longpress_cycles [of "power_on 0" 2] longpress_cycles [of "power_on 0" 3]
    longpress_cycles [of "power_on 0" 4] longpress_cycles [of "power_on 0" 5]
    longpress_cycles [of "power_on 0" 6] longpress_cycles [of "power_on 0" 7]
    longpress_cycles [of "power_on 0" 8] longpress_cycles [of "power_on 0\<lparr>setstate := 6\<rparr>" 0]
  by (simp add: power_on_def)

section \<open>Short press: the time edits\<close>

lemma secs_bound:
  "unat ((t div 1000) mod 60 * 1000 :: ulong) = (unat t div 1000 mod 60) * 1000"
proof -
  have "unat ((t div 1000) mod 60) = unat t div 1000 mod 60" by (simp add: unat_div unat_mod)
  moreover have "unat t div 1000 mod 60 < 60" by simp
  ultimately have "unat ((t div 1000) mod 60) * unat (1000 :: ulong) < 2 ^ LENGTH(32)" by simp
  then have "unat ((t div 1000) mod 60 * 1000)
      = unat ((t div 1000) mod 60) * unat (1000 :: ulong)"
    by (simp only: unat_mult_lem [THEN iffD1])
  then show ?thesis by (simp add: unat_div unat_mod)
qed

lemma secs_le_nat: "(unat (t :: ulong) div 1000 mod 60) * 1000 \<le> unat t"
proof -
  have "(unat t div 1000 mod 60) * 1000 \<le> (unat t div 1000) * 1000" by simp
  also have "\<dots> \<le> unat t" by simp
  finally show ?thesis .
qed

lemma secs_le: "(t div 1000) mod 60 * 1000 \<le> (t :: ulong)"
  using secs_le_nat [of t] by (simp add: word_le_nat_alt secs_bound)

lemma reset_seconds_nat:
  "unat (t - (t div 1000) mod 60 * 1000 :: ulong) + (unat t div 1000 mod 60) * 1000 = unat t"
  using secs_le [of t] secs_le_nat [of t] by (simp add: unat_sub secs_bound)

text \<open>
  C3. A short press dispatches on the setting state. In state 1 (reset seconds) the new
  elapsed time is the old one minus its seconds-of-minute component times 1000 (the
  subtraction never borrows, so old = new + component); in states 2, 3, 4 and 5 it is the
  old one plus 60000, 600000, 3600000 and 36000000 (in the 32-bit arithmetic of \<open>tim\<close>);
  in state 0 it is unchanged.
\<close>

theorem shortpress_edits:
  "(setstate st = 1 \<longrightarrow>
      tim (shortpress st) = tim st - ((tim st div 1000) mod 60) * 1000
      \<and> unat (tim (shortpress st)) + (unat (tim st) div 1000 mod 60) * 1000 = unat (tim st))
   \<and> (setstate st = 2 \<longrightarrow> tim (shortpress st) = tim st + 60000)
   \<and> (setstate st = 3 \<longrightarrow> tim (shortpress st) = tim st + 600000)
   \<and> (setstate st = 4 \<longrightarrow> tim (shortpress st) = tim st + 3600000)
   \<and> (setstate st = 5 \<longrightarrow> tim (shortpress st) = tim st + 36000000)
   \<and> (setstate st = 0 \<longrightarrow> tim (shortpress st) = tim st)"
  by (simp add: shortpress_def reset_seconds_nat)

theorem shortpress_edits_witness:
  "tim (shortpress (power_on 0\<lparr>tim := 125743, setstate := 1\<rparr>)) = 120743
   \<and> tim (shortpress (power_on 0\<lparr>tim := 125743, setstate := 2\<rparr>)) = 185743
   \<and> tim (shortpress (power_on 0\<lparr>tim := 125743, setstate := 3\<rparr>)) = 725743
   \<and> tim (shortpress (power_on 0\<lparr>tim := 125743, setstate := 4\<rparr>)) = 3725743
   \<and> tim (shortpress (power_on 0\<lparr>tim := 125743, setstate := 5\<rparr>)) = 36125743
   \<and> tim (shortpress (power_on 0\<lparr>tim := 125743, setstate := 0\<rparr>)) = 125743"
  using shortpress_edits [of "power_on 0\<lparr>tim := 125743, setstate := 1\<rparr>"]
    shortpress_edits [of "power_on 0\<lparr>tim := 125743, setstate := 2\<rparr>"]
    shortpress_edits [of "power_on 0\<lparr>tim := 125743, setstate := 3\<rparr>"]
    shortpress_edits [of "power_on 0\<lparr>tim := 125743, setstate := 4\<rparr>"]
    shortpress_edits [of "power_on 0\<lparr>tim := 125743, setstate := 5\<rparr>"]
    shortpress_edits [of "power_on 0\<lparr>tim := 125743, setstate := 0\<rparr>"]
  by (simp add: power_on_def)

section \<open>Elapsed time is a 32-bit counter\<close>

text \<open>
  The derived values at the wrap: at \<open>tim = 2 ^ 32 - 1\<close> the expressions of
  \<open>printscreen\<close> give 17:02:47; one watchdog interval later \<open>tim\<close> is 1071 and they give
  00:00:01. Seven hours after the wrap the day expression still gives day 0, where the
  unwrapped count of milliseconds gives day 1.
\<close>

lemma wrap_displays_jump:
  "((0xFFFFFFFF :: ulong) div 1000 div 60 div 60) mod TIME1224 = 17
   \<and> ((0xFFFFFFFF :: ulong) div 1000 div 60) mod 60 = 2
   \<and> ((0xFFFFFFFF :: ulong) div 1000) mod 60 = 47
   \<and> tim (drain (power_on 0\<lparr>tim := 0xFFFFFFFF, wdtmillis := 1072\<rparr>)) = 1071
   \<and> ((1071 :: ulong) div 1000 div 60 div 60) mod TIME1224 = 0
   \<and> ((1071 :: ulong) div 1000 div 60) mod 60 = 0
   \<and> ((1071 :: ulong) div 1000) mod 60 = 1
   \<and> tim (drain (power_on 0\<lparr>tim := 0xFFFFFFFF, wdtmillis := 25200001\<rparr>)) = 25200000
   \<and> ((25200000 :: ulong) div 1000 div 60 div 60 div 24) mod 7 = 0
   \<and> ((4294967295 + 25200001) div 86400000) mod 7 = (1::nat)"
  by (simp add: TIME1224_def drain_def power_on_def)

lemma reset_seconds_mod:
  "unat (t - (t div 1000) mod 60 * 1000 :: ulong)
     = (unat t + 2 ^ 32 - (unat t div 1000 mod 60) * 1000) mod 2 ^ 32"
proof -
  let ?b = "(unat t div 1000 mod 60) * 1000"
  have le: "?b \<le> unat t" by (rule secs_le_nat)
  have "unat (t - (t div 1000) mod 60 * 1000) = unat t - ?b"
    using reset_seconds_nat [of t] by linarith
  moreover have "unat t - ?b < 2 ^ 32"
    using unsigned_less [of t, where ?'a = nat] by simp
  moreover have "unat t + 2 ^ 32 - ?b = (unat t - ?b) + 2 ^ 32" using le by simp
  ultimately show ?thesis by (simp only: mod_add_self2 mod_less)
qed

text \<open>
  C10. \<open>tim\<close> is a 32-bit unsigned value: the value after the drain of the tick residue,
  after each add edit and after the reset of the seconds is the exact result reduced
  modulo \<open>2 ^ 32\<close>. \<open>2 ^ 32\<close> milliseconds lie between 49 and 50 days; a drain that
  carries \<open>tim\<close> past \<open>2 ^ 32 - 1\<close> leaves the remainder (1071 after one watchdog
  interval of 1072 ms), and the hours, minutes and seconds expressions of \<open>printscreen\<close>
  go from 17, 2, 47 to 0, 0, 1; the day expression gives day 0 seven hours after the
  wrap, where the unwrapped count gives day 1.
\<close>

theorem tim_wraps_mod_2_32:
  "unat (tim (drain st)) = (unat (tim st) + unat (wdtmillis st)) mod 2 ^ 32
   \<and> (setstate st = 1 \<longrightarrow> unat (tim (shortpress st))
         = (unat (tim st) + 2 ^ 32 - (unat (tim st) div 1000 mod 60) * 1000) mod 2 ^ 32)
   \<and> (setstate st = 2 \<longrightarrow> unat (tim (shortpress st)) = (unat (tim st) + 60000) mod 2 ^ 32)
   \<and> (setstate st = 3 \<longrightarrow> unat (tim (shortpress st)) = (unat (tim st) + 600000) mod 2 ^ 32)
   \<and> (setstate st = 4 \<longrightarrow> unat (tim (shortpress st)) = (unat (tim st) + 3600000) mod 2 ^ 32)
   \<and> (setstate st = 5 \<longrightarrow> unat (tim (shortpress st)) = (unat (tim st) + 36000000) mod 2 ^ 32)
   \<and> 49 * 86400000 < (2::nat) ^ 32 \<and> (2::nat) ^ 32 < 50 * 86400000
   \<and> tim (drain (power_on 0\<lparr>tim := 0xFFFFFFFF, wdtmillis := 1072\<rparr>)) = 1071
   \<and> ((0xFFFFFFFF :: ulong) div 1000 div 60 div 60) mod TIME1224 = 17
   \<and> ((0xFFFFFFFF :: ulong) div 1000 div 60) mod 60 = 2
   \<and> ((0xFFFFFFFF :: ulong) div 1000) mod 60 = 47
   \<and> ((1071 :: ulong) div 1000 div 60 div 60) mod TIME1224 = 0
   \<and> ((1071 :: ulong) div 1000 div 60) mod 60 = 0
   \<and> ((1071 :: ulong) div 1000) mod 60 = 1
   \<and> tim (drain (power_on 0\<lparr>tim := 0xFFFFFFFF, wdtmillis := 25200001\<rparr>)) = 25200000
   \<and> ((25200000 :: ulong) div 1000 div 60 div 60 div 24) mod 7 = 0
   \<and> ((4294967295 + 25200001) div 86400000) mod 7 = (1::nat)"
proof -
  have g: "unat (tim (drain st)) = (unat (tim st) + unat (wdtmillis st)) mod 2 ^ 32
   \<and> (setstate st = 1 \<longrightarrow> unat (tim (shortpress st))
         = (unat (tim st) + 2 ^ 32 - (unat (tim st) div 1000 mod 60) * 1000) mod 2 ^ 32)
   \<and> (setstate st = 2 \<longrightarrow> unat (tim (shortpress st)) = (unat (tim st) + 60000) mod 2 ^ 32)
   \<and> (setstate st = 3 \<longrightarrow> unat (tim (shortpress st)) = (unat (tim st) + 600000) mod 2 ^ 32)
   \<and> (setstate st = 4 \<longrightarrow> unat (tim (shortpress st)) = (unat (tim st) + 3600000) mod 2 ^ 32)
   \<and> (setstate st = 5 \<longrightarrow> unat (tim (shortpress st)) = (unat (tim st) + 36000000) mod 2 ^ 32)
   \<and> 49 * 86400000 < (2::nat) ^ 32 \<and> (2::nat) ^ 32 < 50 * 86400000"
    by (simp add: drain_def shortpress_def unat_word_ariths reset_seconds_mod)
  show ?thesis using g wrap_displays_jump by (simp only:) simp
qed

theorem tim_wraps_mod_2_32_witness:
  "unat (tim (drain (power_on 0\<lparr>tim := 0xFFFFFFFF, wdtmillis := 1072\<rparr>))) = 1071
   \<and> unat (tim (shortpress (power_on 0\<lparr>tim := 0xFFFFFFFF, setstate := 2\<rparr>))) = 59999
   \<and> unat (tim (shortpress (power_on 0\<lparr>tim := 0xFFFFFFFF, setstate := 3\<rparr>))) = 599999
   \<and> unat (tim (shortpress (power_on 0\<lparr>tim := 0xFFFFFFFF, setstate := 4\<rparr>))) = 3599999
   \<and> unat (tim (shortpress (power_on 0\<lparr>tim := 0xFFFFFFFF, setstate := 5\<rparr>))) = 35999999
   \<and> unat (tim (shortpress (power_on 0\<lparr>tim := 125743, setstate := 1\<rparr>))) = 120743"
  using tim_wraps_mod_2_32 [of "power_on 0\<lparr>tim := 0xFFFFFFFF, wdtmillis := 1072\<rparr>"]
    tim_wraps_mod_2_32 [of "power_on 0\<lparr>tim := 0xFFFFFFFF, setstate := 2\<rparr>"]
    tim_wraps_mod_2_32 [of "power_on 0\<lparr>tim := 0xFFFFFFFF, setstate := 3\<rparr>"]
    tim_wraps_mod_2_32 [of "power_on 0\<lparr>tim := 0xFFFFFFFF, setstate := 4\<rparr>"]
    tim_wraps_mod_2_32 [of "power_on 0\<lparr>tim := 0xFFFFFFFF, setstate := 5\<rparr>"]
    tim_wraps_mod_2_32 [of "power_on 0\<lparr>tim := 125743, setstate := 1\<rparr>"]
  by (simp add: power_on_def)

section \<open>Ten hours, HourFormat times\<close>

lemma shortpress_add10h:
  "setstate s = 5 \<Longrightarrow> shortpress s = s\<lparr>tim := tim s + 36000000\<rparr>"
  by (simp add: shortpress_def)

lemma add10h_iter:
  assumes "setstate st = 5"
  shows "setstate ((shortpress ^^ n) st) = 5
         \<and> tim ((shortpress ^^ n) st) = tim st + word_of_nat n * 36000000"
proof (induction n)
  case 0
  then show ?case using assms by simp
next
  case (Suc n)
  let ?s = "(shortpress ^^ n) st"
  have "shortpress ?s = ?s\<lparr>tim := tim ?s + 36000000\<rparr>"
    using Suc by (simp add: shortpress_add10h)
  then have "setstate (shortpress ?s) = 5
      \<and> tim (shortpress ?s) = tim st + word_of_nat n * 36000000 + 36000000"
    using Suc by simp
  moreover have "tim st + word_of_nat n * 36000000 + 36000000
      = tim st + word_of_nat (Suc n) * 36000000"
    by (simp add: distrib_right)
  ultimately show ?case by (simp only: funpow.simps o_apply)
qed

lemma hours_nat:
  "unat ((t div 1000 div 60 div 60) mod TIME1224) = (unat t div 3600000) mod 24"
  by (simp add: unat_div unat_mod TIME1224_def div_mult2_eq [symmetric])

lemma hours_shift: "((a::nat) + 864000000) div 3600000 mod 24 = a div 3600000 mod 24"
proof -
  have "(a + 240 * 3600000) div (3600000::nat) = 240 + a div 3600000"
    by (rule div_mult_self1) simp
  then have "(a + 864000000) div 3600000 = a div 3600000 + 10 * 24" by simp
  then show ?thesis by (simp only: mod_mult_self1)
qed

text \<open>
  C6, as the specification states it, at \<open>tim = 2 ^ 32 - 1\<close>: the hours expression of
  \<open>printscreen\<close> gives 17 before and 23 after \<open>TIME1224\<close> short presses in state 5, since
  the sum wraps modulo \<open>2 ^ 32\<close>.
\<close>

theorem add10h_wraparound_counterexample:
  "(tim ((shortpress ^^ unat TIME1224) (power_on 0\<lparr>tim := 0xFFFFFFFF, setstate := 5\<rparr>))
      div 1000 div 60 div 60) mod TIME1224 = 23
   \<and> (tim (power_on 0\<lparr>tim := 0xFFFFFFFF, setstate := 5\<rparr>) div 1000 div 60 div 60)
        mod TIME1224 = 17"
proof -
  have "unat TIME1224 = 24" by (simp add: TIME1224_def)
  moreover have "tim ((shortpress ^^ 24) (power_on 0\<lparr>tim := 0xFFFFFFFF, setstate := 5\<rparr>))
      = 0xFFFFFFFF + word_of_nat 24 * 36000000"
    using add10h_iter [of "power_on 0\<lparr>tim := 0xFFFFFFFF, setstate := 5\<rparr>" 24]
    by (simp add: power_on_def)
  ultimately show ?thesis by (simp add: TIME1224_def power_on_def)
qed

text \<open>
  C6, amended. For every elapsed time that the \<open>TIME1224\<close> additions of 36000000 ms do
  not carry past \<open>2 ^ 32\<close>, \<open>TIME1224\<close> short presses in state 5 (add ten hours) return
  the hours expression \<open>(tim / 1000 / 60 / 60) % TIME1224\<close> to its value.
\<close>

theorem add10h_wraparound:
  assumes "setstate st = 5" and "unat (tim st) + unat TIME1224 * 36000000 < 2 ^ 32"
  shows "(tim ((shortpress ^^ unat TIME1224) st) div 1000 div 60 div 60) mod TIME1224
         = (tim st div 1000 div 60 div 60) mod TIME1224"
proof -
  have k: "unat TIME1224 = 24" by (simp add: TIME1224_def)
  have "tim ((shortpress ^^ 24) st) = tim st + word_of_nat 24 * 36000000"
    using add10h_iter [OF assms(1), of 24] by blast
  moreover have "(word_of_nat 24 * 36000000 :: ulong) = 864000000" by simp
  ultimately have t: "tim ((shortpress ^^ 24) st) = tim st + 864000000" by (simp only:)
  have "unat (tim st) + unat (864000000 :: ulong) < 2 ^ LENGTH(32)"
    using assms(2) by (simp add: k)
  then have "unat (tim st + 864000000) = unat (tim st) + unat (864000000 :: ulong)"
    by (simp only: unat_add_lem [THEN iffD1])
  then have u: "unat (tim st + 864000000) = unat (tim st) + 864000000" by simp
  have "unat ((tim st + 864000000) div 1000 div 60 div 60 mod TIME1224)
        = unat (tim st div 1000 div 60 div 60 mod TIME1224)"
    by (simp only: hours_nat u hours_shift)
  then show ?thesis by (simp only: k t word_unat_eq_iff)
qed

theorem add10h_wraparound_witness:
  "(tim ((shortpress ^^ unat TIME1224) (power_on 0\<lparr>tim := 125743, setstate := 5\<rparr>))
      div 1000 div 60 div 60) mod TIME1224
   = (tim (power_on 0\<lparr>tim := 125743, setstate := 5\<rparr>) div 1000 div 60 div 60) mod TIME1224"
  using add10h_wraparound [of "power_on 0\<lparr>tim := 125743, setstate := 5\<rparr>"]
  by (simp add: power_on_def TIME1224_def)

section \<open>Waking on the button edge\<close>

text \<open>
  C8, as the specification states it, at a wake time of \<open>2 ^ 32 - 1\<close> ms: the deadline
  \<open>outtime\<close> after the handler is 4999, below the wake time plus \<open>TIMEOUT\<close>
  (4294972295).
\<close>

theorem pcint0_deadline_counterexample:
  "issleep (power_on 0xFFFFFFFF\<lparr>issleep := True\<rparr>)
   \<and> unat (outtime (isr_pcint0 (power_on 0xFFFFFFFF\<lparr>issleep := True\<rparr>))) = 4999
   \<and> unat (millis (power_on 0xFFFFFFFF\<lparr>issleep := True\<rparr>)) + unat TIMEOUT = 4294972295"
  by (simp add: isr_pcint0_def setdtimeout_def power_on_def TIMEOUT_def Let_def)

text \<open>
  C8, amended. A pin change interrupt taken while \<open>issleep\<close> is true clears \<open>issleep\<close>,
  sends the display-on command \<open>0xAF\<close> and sets \<open>outtime\<close> to the clock value plus
  \<open>TIMEOUT\<close> modulo \<open>2 ^ 32\<close>; the deadline is at least the wake time plus \<open>TIMEOUT\<close>
  whenever that sum is below \<open>2 ^ 32\<close>.
\<close>

theorem pcint0_wakes:
  assumes "issleep st"
  shows "\<not> issleep (isr_pcint0 st)
     \<and> wire (isr_pcint0 st) = wire st @ [Cmd [0xAF]]
     \<and> outtime (isr_pcint0 st) = millis st + TIMEOUT
     \<and> unat (outtime (isr_pcint0 st)) = (unat (millis st) + unat TIMEOUT) mod 2 ^ 32
     \<and> (unat (millis st) + unat TIMEOUT < 2 ^ 32 \<longrightarrow>
          unat (millis st) + unat TIMEOUT \<le> unat (outtime (isr_pcint0 st)))"
  using assms
  by (simp add: isr_pcint0_def setdtimeout_def don_def dsendcmd_def Let_def unat_word_ariths)

theorem pcint0_wakes_witness:
  "\<not> issleep (isr_pcint0 (power_on 1000\<lparr>issleep := True\<rparr>))
   \<and> wire (isr_pcint0 (power_on 1000\<lparr>issleep := True\<rparr>)) = [Cmd [0xAF]]
   \<and> unat (outtime (isr_pcint0 (power_on 1000\<lparr>issleep := True\<rparr>))) = 6000"
  using pcint0_wakes [of "power_on 1000\<lparr>issleep := True\<rparr>"]
  by (simp add: power_on_def TIMEOUT_def)

section \<open>Filling and sending the framebuffer\<close>

lemma for_each_append:
  "for_each (xs @ ys) body s = Option.bind (for_each xs body s) (for_each ys body)"
proof (induction xs arbitrary: s)
  case Nil
  then show ?case by simp
next
  case (Cons x xs)
  then show ?case by (cases "body x s") simp_all
qed

lemma fill_prefix:
  "k \<le> length buf \<Longrightarrow>
   for_each [0..<k] (\<lambda>i. dbuf_write i n) buf = Some (replicate k n @ drop k buf)"
proof (induction k)
  case 0
  then show ?case by simp
next
  case (Suc k)
  then have k: "k < length buf" by simp
  have "(replicate k n @ drop k buf)[k := n] = replicate (Suc k) n @ drop (Suc k) buf"
    using k by (simp add: list_update_append Cons_nth_drop_Suc [symmetric] replicate_append_same)
  then show ?case using Suc k
    by (simp add: for_each_append dbuf_write_def)
qed

lemma dbuffill_ok:
  "length buf = DWIDTH * DLINES \<Longrightarrow> dbuffill n buf = Some (replicate (DWIDTH * DLINES) n)"
  using fill_prefix [of "DWIDTH * DLINES" buf n] by (simp add: dbuffill_def)

lemma for_each_total:
  assumes "\<And>i s. i \<in> set js \<Longrightarrow> \<exists>s'. body i s = Some s'"
  shows "\<exists>s'. for_each js body s = Some s'"
  using assms
proof (induction js arbitrary: s)
  case Nil
  then show ?case by simp
next
  case (Cons j js)
  obtain s1 where "body j s = Some s1" using Cons.prems [of j s] by auto
  moreover obtain s2 where "for_each js body s1 = Some s2"
    using Cons.IH [of s1] Cons.prems by auto
  ultimately show ?case by simp
qed

lemma ddisplaypage_ok:
  assumes "length buf = DWIDTH * DLINES" and "unat page < 2 * DLINES"
  shows "\<exists>w'. ddisplaypage page buf w = Some w'"
  unfolding ddisplaypage_def
proof (rule for_each_total)
  fix j s assume "j \<in> set [0..<DWIDTH]"
  then have j: "j < DWIDTH" by simp
  have "unat page div 2 < DLINES" using assms(2) by simp
  then have "unat page div 2 * DWIDTH + j < DWIDTH * DLINES"
    using j by (simp add: DWIDTH_def DLINES_def)
  then show "\<exists>s'. do {
          v \<leftarrow> dbuf_read buf ((unat page div 2) * DWIDTH + j);
          let tmp = expand4bit (drop_bit ((unat page mod 2) * 4) v AND 0x0f);
          Some (dsenddatabyte tmp (dsenddatabyte tmp s))
        } = Some s'"
    using assms(1) by (simp add: dbuf_read_def Let_def)
qed

lemma ddisplay_ok:
  assumes "length buf = DWIDTH * DLINES"
  shows "\<exists>w'. ddisplay buf w = Some w'"
  unfolding ddisplay_def
proof (rule for_each_total)
  fix i s assume "i \<in> set [0..<DLINES]"
  then have i: "i < 3" by (simp add: DLINES_def)
  then have "i = 0 \<or> i = 1 \<or> i = 2" by arith
  then have "unat (word_of_nat (2 * i) :: byte) = 2 * i
      \<and> unat (word_of_nat (2 * i + 1) :: byte) = 2 * i + 1"
    by (elim disjE) simp_all
  then have p: "unat (word_of_nat (2 * i) :: byte) < 2 * DLINES"
    "unat (word_of_nat (2 * i + 1) :: byte) < 2 * DLINES"
    using i by (simp_all add: DLINES_def)
  obtain w1 where w1: "ddisplaypage (word_of_nat (2 * i)) buf s = Some w1"
    using ddisplaypage_ok [OF assms p(1)] by blast
  obtain w2 where "ddisplaypage (word_of_nat (2 * i + 1)) buf w1 = Some w2"
    using ddisplaypage_ok [OF assms p(2)] by blast
  then show "\<exists>s'. do {
          w'' \<leftarrow> ddisplaypage (word_of_nat (2 * i)) buf s;
          ddisplaypage (word_of_nat (2 * i + 1)) buf w''
        } = Some s'"
    using w1 by simp
qed

section \<open>Entering sleep\<close>

lemma setsleep_Some:
  assumes "length (dbuf st) = DWIDTH * DLINES"
  shows "setsleep st = Some ((delayshort 2 (st\<lparr>setstate := 0,
      dbuf := replicate (DWIDTH * DLINES) 0, wire := wire st @ [Cmd [0xAE]]\<rparr>))\<lparr>issleep := True\<rparr>)"
  using assms by (simp add: setsleep_def dbuffill_ok doff_def dsendcmd_def)

text \<open>
  C7. With the framebuffer at its size \<open>DWIDTH * DLINES\<close>, \<open>setsleep\<close> returns, and in the
  state it leaves the setting state is 0, every byte of the framebuffer is zero, the
  sleeping flag is set and the display-off command \<open>0xAE\<close> is the one thing sent,
  whatever the setting state and the framebuffer were; and this is the pass of \<open>loop\<close>
  taken when the device is awake and the clock is past the deadline.
\<close>

theorem setsleep_effect:
  assumes "length (dbuf st) = DWIDTH * DLINES"
  shows "\<exists>st'. setsleep st = Some st' \<and> setstate st' = 0
     \<and> dbuf st' = replicate (DWIDTH * DLINES) 0 \<and> issleep st'
     \<and> wire st' = wire st @ [Cmd [0xAE]]
     \<and> (\<not> issleep st \<and> outtime st < millis st \<longrightarrow> loop inp st = Some st')"
  using setsleep_Some [OF assms] by (simp add: delayshort_def loop_def)

theorem setsleep_effect_witness:
  "\<exists>st'. setsleep (power_on 9\<lparr>setstate := 3, dbuf := replicate 96 0xFF\<rparr>) = Some st'
     \<and> setstate st' = 0 \<and> set (dbuf st') = {0} \<and> length (dbuf st') = 96 \<and> issleep st'
     \<and> wire st' = [Cmd [0xAE]]
     \<and> loop \<lparr>btn_first = False, btn_second = False, adcl = 0, adch = 0\<rparr>
          (power_on 9\<lparr>setstate := 3, dbuf := replicate 96 0xFF\<rparr>) = Some st'"
  using setsleep_effect [of "power_on 9\<lparr>setstate := 3, dbuf := replicate 96 0xFF\<rparr>"
      "\<lparr>btn_first = False, btn_second = False, adcl = 0, adch = 0\<rparr>"]
  by (auto simp: power_on_def DWIDTH_def DLINES_def)

section \<open>Drawing one character\<close>

text \<open>
  The characters of the font table (\<open>'0'\<close> to \<open>'Z'\<close>) and the column \<open>i\<close> of the glyph of
  such a character.
\<close>

definition in_font :: "byte \<Rightarrow> bool" where
  "in_font c \<longleftrightarrow> 48 \<le> uint c \<and> uint c \<le> 90"

definition glyph_col :: "byte \<Rightarrow> nat \<Rightarrow> byte" where
  "glyph_col c i = font ! (3 * nat (uint c - 48) + i)"

lemma length_font: "length font = 129"
  by (simp add: font_def)

lemma read_font:
  assumes i: "i < 3"
  shows "pgm_read_font (int FWIDTH * (uint c - FOFFSET) + int i)
     = (if in_font c then Some (glyph_col c i) else None)"
proof -
  define u where "u = uint c"
  have k: "int FWIDTH * (uint c - FOFFSET) + int i = 3 * (u - 48) + int i"
    by (simp add: FWIDTH_def FOFFSET_def u_def)
  show ?thesis
  proof (cases "in_font c")
    case True
    then have r: "48 \<le> u" "u \<le> 90" by (simp_all add: in_font_def u_def)
    then have "nat (3 * (u - 48) + int i) = 3 * nat (u - 48) + i"
      by (simp add: nat_add_distrib nat_mult_distrib)
    moreover have "0 \<le> 3 * (u - 48) + int i" using r by simp
    moreover have "3 * (u - 48) + int i < int (length font)"
      using r i by (simp add: length_font)
    ultimately have "pgm_read_font (3 * (u - 48) + int i) = Some (font ! (3 * nat (u - 48) + i))"
      unfolding pgm_read_font_def by simp
    then show ?thesis using True unfolding k by (simp add: glyph_col_def u_def)
  next
    case False
    then consider "u < 48" | "90 < u" unfolding in_font_def u_def by linarith
    then have "3 * (u - 48) + int i < 0 \<or> int (length font) \<le> 3 * (u - 48) + int i"
    proof cases
      case 1
      then have "3 * (u - 48) + int i < 0" using i by simp
      then show ?thesis by simp
    next
      case 2
      then have "int (length font) \<le> 3 * (u - 48) + int i" using i by (simp add: length_font)
      then show ?thesis by simp
    qed
    then have "pgm_read_font (3 * (u - 48) + int i) = None"
      unfolding pgm_read_font_def by auto
    then show ?thesis using False unfolding k by simp
  qed
qed

lemma rf0: "pgm_read_font (int FWIDTH * (uint c - FOFFSET) + int 0)
    = (if in_font c then Some (glyph_col c 0) else None)"
  by (rule read_font) simp

lemma rf1: "pgm_read_font (int FWIDTH * (uint c - FOFFSET) + int 1)
    = (if in_font c then Some (glyph_col c 1) else None)"
  by (rule read_font) simp

lemma rf2: "pgm_read_font (int FWIDTH * (uint c - FOFFSET) + int 2)
    = (if in_font c then Some (glyph_col c 2) else None)"
  by (rule read_font) simp

lemma upt_FWIDTH: "[0..<FWIDTH] = [0, 1, 2]"
  by (simp add: FWIDTH_def upt_rec)

lemma upt_0_2: "[0..<2] = [0, 1]"
  by (simp add: upt_rec)

lemma upt_0_1: "[0..<1] = [0]"
  by simp

lemma unat_byte_1: "unat (1::byte) = 1"
  by simp

lemma unat_byte_2: "unat (2::byte) = 2"
  by simp

text \<open>A single-size character on row 2: three bytes, or no result outside the font.\<close>

lemma printcat_small:
  assumes "length buf = 96" and "unat x \<le> 29"
  shows "printcat c x 2 1 1 buf =
    (if in_font c
     then Some (buf[unat x + 64 := glyph_col c 0, unat x + 65 := glyph_col c 1,
                    unat x + 66 := glyph_col c 2])
     else None)"
proof (cases "in_font c")
  case True
  show ?thesis
    unfolding printcat_def unat_byte_1 unat_byte_2 upt_0_1 upt_FWIDTH for_each.simps rf0 rf1 rf2
    using True assms by (simp add: dbuf_write_def DWIDTH_def Let_def ac_simps numeral_3_eq_3)
next
  case False
  show ?thesis
    unfolding printcat_def unat_byte_1 unat_byte_2 upt_0_1 upt_FWIDTH for_each.simps rf0 rf1 rf2
    using False by simp
qed

text \<open>A double-size character on rows 0 and 1: each column twice, each nibble expanded.\<close>

lemma printcat_big:
  assumes "length buf = 96" and "unat x \<le> 26"
  shows "printcat c x 0 2 2 buf =
    (if in_font c
     then Some (buf[unat x := expand4bit (glyph_col c 0 AND 0x0f),
                    unat x + 1 := expand4bit (glyph_col c 0 AND 0x0f),
                    unat x + 2 := expand4bit (glyph_col c 1 AND 0x0f),
                    unat x + 3 := expand4bit (glyph_col c 1 AND 0x0f),
                    unat x + 4 := expand4bit (glyph_col c 2 AND 0x0f),
                    unat x + 5 := expand4bit (glyph_col c 2 AND 0x0f),
                    unat x + 32 := expand4bit (drop_bit 4 (glyph_col c 0) AND 0x0f),
                    unat x + 33 := expand4bit (drop_bit 4 (glyph_col c 0) AND 0x0f),
                    unat x + 34 := expand4bit (drop_bit 4 (glyph_col c 1) AND 0x0f),
                    unat x + 35 := expand4bit (drop_bit 4 (glyph_col c 1) AND 0x0f),
                    unat x + 36 := expand4bit (drop_bit 4 (glyph_col c 2) AND 0x0f),
                    unat x + 37 := expand4bit (drop_bit 4 (glyph_col c 2) AND 0x0f)])
     else None)"
proof (cases "in_font c")
  case True
  show ?thesis
    unfolding printcat_def unat_byte_1 unat_byte_2 upt_0_2 upt_FWIDTH for_each.simps rf0 rf1 rf2
    using True assms by (simp add: dbuf_write_def DWIDTH_def Let_def ac_simps numeral_3_eq_3)
next
  case False
  show ?thesis
    unfolding printcat_def unat_byte_1 unat_byte_2 upt_0_2 upt_FWIDTH for_each.simps rf0 rf1 rf2
    using False by simp
qed

section \<open>Digits and the values of the time fields\<close>

lemma sdiv_nonneg: "0 \<le> a \<Longrightarrow> 0 < b \<Longrightarrow> (a::int) sdiv b = a div b"
  by (simp add: signed_divide_int_def sgn_if)

lemma smod_nonneg: "0 \<le> a \<Longrightarrow> 0 < b \<Longrightarrow> (a::int) smod b = a mod b"
  by (cases "a = 0") (simp_all add: signed_modulo_int_def sgn_if)

lemma tens_nonneg: "0 \<le> a \<Longrightarrow> tens a = a div 10 mod 10"
  by (simp add: tens_def sdiv_nonneg smod_nonneg pos_imp_zdiv_nonneg_iff)

lemma ones_nonneg: "0 \<le> a \<Longrightarrow> ones a = a mod 10"
  by (simp add: ones_def smod_nonneg)

lemma huns_nonneg: "0 \<le> a \<Longrightarrow> huns a = a div 100 mod 10"
  by (simp add: huns_def sdiv_nonneg smod_nonneg pos_imp_zdiv_nonneg_iff)

lemma digit_char:
  assumes "0 \<le> d" and "d < 10"
  shows "uint (word_of_int (d + FOFFSET) :: byte) = d + 48"
proof -
  have "uint (word_of_int (d + 48) :: byte) = (d + 48) mod 2 ^ LENGTH(8)"
    by (rule uint_word_of_int)
  moreover have "(d + 48) mod 256 = d + 48" using assms by simp
  ultimately show ?thesis unfolding FOFFSET_def by simp
qed

lemma tens_char:
  "uint (word_of_int (tens (uint (n::byte)) + FOFFSET) :: byte)
     = int (unat n div 10 mod 10) + 48"
proof -
  have "tens (uint n) = uint n div 10 mod 10" by (rule tens_nonneg) simp
  moreover have "uint n div 10 mod 10 = int (unat n div 10 mod 10)"
    by (simp add: zdiv_int zmod_int)
  ultimately show ?thesis using digit_char [of "int (unat n div 10 mod 10)"] by simp
qed

lemma ones_char:
  "uint (word_of_int (ones (uint (n::byte)) + FOFFSET) :: byte) = int (unat n mod 10) + 48"
proof -
  have "ones (uint n) = uint n mod 10" by (rule ones_nonneg) simp
  moreover have "uint n mod 10 = int (unat n mod 10)"
    by (simp add: zmod_int)
  ultimately show ?thesis using digit_char [of "int (unat n mod 10)"] by simp
qed

lemma in_font_tens [simp]: "in_font (word_of_int (tens (uint (n::byte)) + FOFFSET))"
  unfolding in_font_def tens_char by simp

lemma in_font_ones [simp]: "in_font (word_of_int (ones (uint (n::byte)) + FOFFSET))"
  unfolding in_font_def ones_char by simp

lemma glyph_col_tens [simp]:
  "glyph_col (word_of_int (tens (uint (n::byte)) + FOFFSET)) i
     = font ! (3 * (unat n div 10 mod 10) + i)"
  unfolding glyph_col_def tens_char by simp

lemma glyph_col_ones [simp]:
  "glyph_col (word_of_int (ones (uint (n::byte)) + FOFFSET)) i = font ! (3 * (unat n mod 10) + i)"
  unfolding glyph_col_def ones_char by simp

lemma in_font_chars [simp]:
  "in_font 58" "in_font 60" "in_font 61" "in_font 62" "in_font 63" "in_font 64"
  by (simp_all add: in_font_def)

text \<open>The arguments that \<open>printscreen\<close> passes to \<open>printhm\<close> and \<open>prints\<close>, as numbers.\<close>

lemma unat_hours:
  "unat (ucast ((t div 1000 div 60 div 60) mod TIME1224 :: ulong) :: byte)
    = (unat t div 3600000) mod 24"
proof -
  have "unat ((t div 1000 div 60 div 60) mod TIME1224) = (unat t div 3600000) mod 24"
    by (rule hours_nat)
  moreover have "(unat t div 3600000) mod 24 < 256"
    by (rule less_trans [of _ 24]) simp_all
  ultimately show ?thesis
    by (simp add: unsigned_ucast_eq take_bit_eq_mod)
qed

lemma unat_minutes:
  "unat (ucast ((t div 1000 div 60) mod 60 :: ulong) :: byte) = (unat t div 60000) mod 60"
proof -
  have "unat ((t div 1000 div 60) mod 60) = (unat t div 60000) mod 60"
    by (simp add: unat_div unat_mod div_mult2_eq [symmetric])
  moreover have "(unat t div 60000) mod 60 < 256"
    by (rule less_trans [of _ 60]) simp_all
  ultimately show ?thesis
    by (simp add: unsigned_ucast_eq take_bit_eq_mod)
qed

lemma unat_seconds:
  "unat (ucast ((t div 1000) mod 60 :: ulong) :: byte) = (unat t div 1000) mod 60"
proof -
  have "unat ((t div 1000) mod 60) = (unat t div 1000) mod 60"
    by (simp add: unat_div unat_mod)
  moreover have "(unat t div 1000) mod 60 < 256"
    by (rule less_trans [of _ 60]) simp_all
  ultimately show ?thesis
    by (simp add: unsigned_ucast_eq take_bit_eq_mod)
qed

lemma unat_day:
  "unat (ucast ((t div 1000 div 60 div 60 div 24) mod 7 :: ulong) :: byte)
    = (unat t div 86400000) mod 7"
proof -
  have "unat ((t div 1000 div 60 div 60 div 24) mod 7) = (unat t div 86400000) mod 7"
    by (simp add: unat_div unat_mod div_mult2_eq [symmetric])
  moreover have "(unat t div 86400000) mod 7 < 256"
    by (rule less_trans [of _ 7]) simp_all
  ultimately show ?thesis
    by (simp add: unsigned_ucast_eq take_bit_eq_mod)
qed

lemma tens_digit_24: "(a mod 24) div 10 mod 10 = (a mod 24) div (10::nat)"
proof -
  have "a mod 24 < 24" by simp
  then have "(a mod 24) div 10 < 10" by simp
  then show ?thesis by simp
qed

lemma tens_digit_60: "(a mod 60) div 10 mod 10 = (a mod 60) div (10::nat)"
proof -
  have "a mod 60 < 60" by simp
  then have "(a mod 60) div 10 < 10" by simp
  then show ?thesis by simp
qed

section \<open>What the framebuffer shows\<close>

text \<open>
  \<open>cells b a n\<close> are the \<open>n\<close> bytes of the framebuffer from index \<open>a\<close>. A digit \<open>d\<close> drawn
  by \<open>printcat\<close> at single size is \<open>glyph_small d\<close>, three bytes of one row; drawn at
  double size it is \<open>glyph_big d 0\<close> in the upper row and \<open>glyph_big d 1\<close> in the lower
  row, six bytes each.
\<close>

definition cells :: "byte list \<Rightarrow> nat \<Rightarrow> nat \<Rightarrow> byte list" where
  "cells buf a n = map (\<lambda>i. buf ! i) [a..<a + n]"

definition glyph_small :: "nat \<Rightarrow> byte list" where
  "glyph_small d = [font ! (3 * d), font ! (3 * d + 1), font ! (3 * d + 2)]"

definition glyph_big :: "nat \<Rightarrow> nat \<Rightarrow> byte list" where
  "glyph_big d k =
     (let e = (\<lambda>i. expand4bit (drop_bit (4 * k) (font ! (3 * d + i)) AND 0x0f))
      in [e 0, e 0, e 1, e 1, e 2, e 2])"

text \<open>
  The hours \<open>h\<close> and the minutes \<open>m\<close> as \<open>printscreen\<close> places them: the hours at columns
  0 and 8, the minutes at columns 18 and 26, on rows 0 and 1 (a row is \<open>DWIDTH\<close> bytes).
  The seconds \<open>s\<close>: at columns 0 and 4 of row 2.
\<close>

definition shows_time :: "nat \<Rightarrow> nat \<Rightarrow> byte list \<Rightarrow> bool" where
  "shows_time h m b \<longleftrightarrow>
     cells b 0 6 = glyph_big (h div 10) 0 \<and> cells b 32 6 = glyph_big (h div 10) 1
     \<and> cells b 8 6 = glyph_big (h mod 10) 0 \<and> cells b 40 6 = glyph_big (h mod 10) 1
     \<and> cells b 18 6 = glyph_big (m div 10) 0 \<and> cells b 50 6 = glyph_big (m div 10) 1
     \<and> cells b 26 6 = glyph_big (m mod 10) 0 \<and> cells b 58 6 = glyph_big (m mod 10) 1"

definition shows_seconds :: "nat \<Rightarrow> byte list \<Rightarrow> bool" where
  "shows_seconds s b \<longleftrightarrow>
     cells b 64 3 = glyph_small (s div 10) \<and> cells b 68 3 = glyph_small (s mod 10)"

lemma cells_3: "cells b a 3 = [b ! a, b ! (a + 1), b ! (a + 2)]"
  by (simp add: cells_def upt_rec numeral_3_eq_3)

lemma cells_6:
  "cells b a 6 = [b ! a, b ! (a + 1), b ! (a + 2), b ! (a + 3), b ! (a + 4), b ! (a + 5)]"
proof -
  have "[a..<a + 6] = [a, a + 1, a + 2, a + 3, a + 4, a + 5]"
    by (simp add: upt_rec [of a] upt_rec [of "Suc a"] upt_rec [of "Suc (Suc a)"]
        upt_rec [of "Suc (Suc (Suc a))"] upt_rec [of "Suc (Suc (Suc (Suc a)))"]
        upt_rec [of "Suc (Suc (Suc (Suc (Suc a))))"]
        upt_rec [of "Suc (Suc (Suc (Suc (Suc (Suc a)))))"])
  then show ?thesis by (simp add: cells_def)
qed

lemma cells_7:
  "cells b a 7
     = [b ! a, b ! (a + 1), b ! (a + 2), b ! (a + 3), b ! (a + 4), b ! (a + 5), b ! (a + 6)]"
proof -
  have "[a..<Suc (a + 6)] = [a..<a + 6] @ [a + 6]" by (rule upt_Suc_append) simp
  moreover have "Suc (a + 6) = a + 7" by simp
  ultimately have "[a..<a + 7] = [a..<a + 6] @ [a + 6]" by (simp only:)
  then have "cells b a 7 = cells b a 6 @ [b ! (a + 6)]" by (simp add: cells_def)
  then show ?thesis by (simp add: cells_6)
qed

lemma cells_eqI:
  assumes "\<forall>i < m. b' ! i = b ! i" and "a + n \<le> m"
  shows "cells b' a n = cells b a n"
  using assms by (simp add: cells_def)

section \<open>The steps of printscreen\<close>

text \<open>
  The statements of \<open>printscreen\<close> in four groups, each a function of the buffer: colon,
  hours and minutes; seconds; weekday; setting arrows or battery voltage. \<open>wd_shown\<close> is
  the value the function leaves in \<open>weekday\<close>.
\<close>

definition wd_shown :: "watch \<Rightarrow> byte" where
  "wd_shown st = (if setstate st = 0 \<or> setstate st = 6
               then ucast ((tim st div 1000 div 60 div 60 div 24) mod 7) else weekday st)"

definition ps_time :: "watch \<Rightarrow> byte list \<Rightarrow> byte list option" where
  "ps_time st b0 = do {
     b1 \<leftarrow> printcat 58 13 0 2 2 b0;
     b2 \<leftarrow> printhm (ucast ((tim st div 1000 div 60 div 60) mod TIME1224)) 0 b1;
     printhm (ucast ((tim st div 1000 div 60) mod 60)) 18 b2
   }"

definition ps_seconds :: "watch \<Rightarrow> byte list \<Rightarrow> byte list option" where
  "ps_seconds st b3 = (if setstate st < 2 \<and> setstate st \<noteq> 6
            then prints (ucast ((tim st div 1000) mod 60)) b3 else Some b3)"

definition ps_weekday :: "watch \<Rightarrow> byte list \<Rightarrow> byte list option" where
  "ps_weekday st b4 = (if setstate st = 0 \<or> setstate st = 6
            then do {
              c1 \<leftarrow> pgm_read_wday (2 * unat (wd_shown st));
              b \<leftarrow> printcat c1 11 2 1 1 b4;
              c2 \<leftarrow> pgm_read_wday (2 * unat (wd_shown st) + 1);
              printcat c2 15 2 1 1 b
            }
            else Some b4)"

definition ps_overlay :: "watch \<Rightarrow> byte list \<Rightarrow> byte list option" where
  "ps_overlay st b5 = (if setstate st = 1 then printcat 60 8 2 1 1 b5
            else if setstate st = 2 then printarrow 26 b5
            else if setstate st = 3 then printarrow 18 b5
            else if setstate st = 4 then printarrow 8 b5
            else if setstate st = 5 then printarrow 0 b5
            else if setstate st = 6 then printcat 62 7 2 1 1 b5
            else do {
              b \<leftarrow> printcat (word_of_int (huns (sint (vcc st)) + FOFFSET)) 23 2 1 1 b5;
              b' \<leftarrow> printcat 61 26 2 1 1 b;
              printcat (word_of_int (tens (sint (vcc st)) + FOFFSET)) 29 2 1 1 b'
            })"

lemma printscreen_steps:
  "printscreen st = do {
     b0 \<leftarrow> dbuffill 0x00 (dbuf st);
     b3 \<leftarrow> ps_time st b0;
     b4 \<leftarrow> ps_seconds st b3;
     b5 \<leftarrow> ps_weekday st b4;
     b6 \<leftarrow> ps_overlay st b5;
     w \<leftarrow> ddisplay b6 (wire st);
     Some (st\<lparr>weekday := wd_shown st, dbuf := b6, wire := w\<rparr>)
   }"
  unfolding printscreen_def ps_time_def ps_seconds_def ps_weekday_def ps_overlay_def wd_shown_def
  by (simp only: Let_def bind_assoc)

lemma byte_lt_2: "(s::byte) < 2 \<longleftrightarrow> s = 0 \<or> s = 1"
proof
  assume "s < 2"
  then have "unat s < 2" by (simp add: word_less_nat_alt)
  then have "unat s \<in> {0, 1}" by simp arith
  then have "word_of_nat (unat s) \<in> (word_of_nat ` {0, 1} :: byte set)" by (rule imageI)
  then show "s = 0 \<or> s = 1" by simp
next
  assume "s = 0 \<or> s = 1"
  then show "s < 2" by auto
qed

text \<open>Colon, hours and minutes: rows 0 and 1 only, and no failure.\<close>

lemma ps_time_effect:
  assumes "length b = 96"
  shows "\<exists>b3. ps_time st b = Some b3 \<and> length b3 = 96
     \<and> (\<forall>i. 64 \<le> i \<longrightarrow> b3 ! i = b ! i)
     \<and> cells b3 0 6 = glyph_big ((unat (tim st) div 3600000) mod 24 div 10) 0
     \<and> cells b3 32 6 = glyph_big ((unat (tim st) div 3600000) mod 24 div 10) 1
     \<and> cells b3 8 6 = glyph_big ((unat (tim st) div 3600000) mod 24 mod 10) 0
     \<and> cells b3 40 6 = glyph_big ((unat (tim st) div 3600000) mod 24 mod 10) 1
     \<and> cells b3 18 6 = glyph_big ((unat (tim st) div 60000) mod 60 div 10) 0
     \<and> cells b3 50 6 = glyph_big ((unat (tim st) div 60000) mod 60 div 10) 1
     \<and> cells b3 26 6 = glyph_big ((unat (tim st) div 60000) mod 60 mod 10) 0
     \<and> cells b3 58 6 = glyph_big ((unat (tim st) div 60000) mod 60 mod 10) 1"
  using assms
  by (simp add: ps_time_def printhm_def printcat_big unat_hours unat_minutes cells_6
      glyph_big_def tens_digit_24 tens_digit_60 del: of_int_add)

text \<open>Seconds: columns 0 to 2 and 4 to 6 of row 2.\<close>

lemma prints_effect:
  assumes "length b = 96"
  shows "\<exists>b4. prints n b = Some b4 \<and> length b4 = 96
     \<and> cells b4 64 3 = glyph_small (unat n div 10 mod 10)
     \<and> cells b4 68 3 = glyph_small (unat n mod 10)
     \<and> (\<forall>i. i < 64 \<or> i = 67 \<or> 71 \<le> i \<longrightarrow> b4 ! i = b ! i)"
  using assms
  by (simp add: prints_def printcat_small cells_3 glyph_small_def del: of_int_add)

lemma ps_seconds_shown:
  assumes "length b = 96" and "setstate st < 2"
  shows "\<exists>b4. ps_seconds st b = Some b4 \<and> length b4 = 96
     \<and> cells b4 64 3 = glyph_small ((unat (tim st) div 1000) mod 60 div 10)
     \<and> cells b4 68 3 = glyph_small ((unat (tim st) div 1000) mod 60 mod 10)
     \<and> (\<forall>i. i < 64 \<or> i = 67 \<or> 71 \<le> i \<longrightarrow> b4 ! i = b ! i)"
proof -
  have "setstate st \<noteq> 6" using assms(2) by auto
  then have "ps_seconds st b = prints (ucast ((tim st div 1000) mod 60)) b"
    using assms(2) by (simp add: ps_seconds_def)
  then show ?thesis
    using prints_effect [OF assms(1), of "ucast ((tim st div 1000) mod 60)"]
    by (simp add: unat_seconds tens_digit_60)
qed

lemma ps_seconds_hidden:
  assumes "\<not> setstate st < 2"
  shows "ps_seconds st b = Some b"
  using assms by (simp add: ps_seconds_def)

text \<open>Weekday: columns 11 to 17 of row 2; its two letters are in the font.\<close>

lemma wday_read:
  assumes "k < 14"
  shows "\<exists>c. pgm_read_wday k = Some c \<and> in_font c"
proof -
  have "\<forall>c \<in> set wday. in_font c" by (simp add: wday_def in_font_def)
  moreover have "length wday = 14" by (simp add: wday_def)
  ultimately show ?thesis using assms by (simp add: pgm_read_wday_def)
qed

lemma ps_weekday_effect:
  assumes "length b = 96"
  shows "\<exists>b5. ps_weekday st b = Some b5 \<and> length b5 = 96
     \<and> (\<forall>i. i < 75 \<or> 82 \<le> i \<longrightarrow> b5 ! i = b ! i)"
proof (cases "setstate st = 0 \<or> setstate st = 6")
  case True
  then have "unat (wd_shown st) = (unat (tim st) div 86400000) mod 7"
    by (simp only: wd_shown_def if_True unat_day)
  then have "unat (wd_shown st) < 7" by simp
  then have k: "2 * unat (wd_shown st) < 14" "2 * unat (wd_shown st) + 1 < 14" by simp_all
  obtain c1 where c1: "pgm_read_wday (2 * unat (wd_shown st)) = Some c1" "in_font c1"
    using wday_read [OF k(1)] by blast
  obtain c2 where c2: "pgm_read_wday (2 * unat (wd_shown st) + 1) = Some c2" "in_font c2"
    using wday_read [OF k(2)] by blast
  show ?thesis using True assms c1 c2
    by (simp add: ps_weekday_def printcat_small)
next
  case False
  then show ?thesis using assms by (simp add: ps_weekday_def)
qed

text \<open>
  Setting arrows or battery voltage: row 2 only; from column 7 on, except the arrows of
  state 5, which start at column 0 with the byte 4 of the glyph \<open>'?'\<close>.
\<close>

lemma glyph_arrow_left: "glyph_col 63 0 = 4"
  by (simp add: glyph_col_def font_def)

lemma ps_overlay_effect:
  assumes "length b = 96" and "ps_overlay st b = Some b6"
  shows "length b6 = 96 \<and> (\<forall>i < 64. b6 ! i = b ! i)
     \<and> (setstate st \<noteq> 5 \<longrightarrow> (\<forall>i < 71. b6 ! i = b ! i))
     \<and> (setstate st = 5 \<longrightarrow> b6 ! 64 = 4)"
  using assms
  by (auto simp: ps_overlay_def printarrow_def printcat_small bind_eq_Some_conv glyph_arrow_left
      split: if_splits simp del: of_int_add)

lemma ps_overlay_returns:
  assumes "length b = 96" and "0 \<le> sint (vcc st)"
  shows "\<exists>b6. ps_overlay st b = Some b6"
proof -
  let ?v = "sint (vcc st)"
  have h: "huns ?v = ?v div 100 mod 10" using assms(2) by (rule huns_nonneg)
  have t: "tens ?v = ?v div 10 mod 10" using assms(2) by (rule tens_nonneg)
  have "uint (word_of_int (huns ?v + FOFFSET) :: byte) = ?v div 100 mod 10 + 48"
    unfolding h by (rule digit_char) simp_all
  then have ih: "in_font (word_of_int (huns ?v + FOFFSET))" by (simp add: in_font_def)
  have "uint (word_of_int (tens ?v + FOFFSET) :: byte) = ?v div 10 mod 10 + 48"
    unfolding t by (rule digit_char) simp_all
  then have it: "in_font (word_of_int (tens ?v + FOFFSET))" by (simp add: in_font_def)
  show ?thesis using assms(1) ih it
    by (simp add: ps_overlay_def printarrow_def printcat_small del: of_int_add)
qed

section \<open>The composed screen\<close>

lemma printscreen_SomeD:
  assumes "printscreen st = Some st'" and "length (dbuf st) = 96"
  shows "\<exists>b3 b4 b5 w. ps_time st (replicate 96 0) = Some b3 \<and> ps_seconds st b3 = Some b4
     \<and> ps_weekday st b4 = Some b5 \<and> ps_overlay st b5 = Some (dbuf st')
     \<and> ddisplay (dbuf st') (wire st) = Some w \<and> weekday st' = wd_shown st"
proof -
  have "dbuffill 0 (dbuf st) = Some (replicate 96 0)"
    using dbuffill_ok [of "dbuf st" 0] assms(2) by (simp add: DWIDTH_def DLINES_def)
  then show ?thesis
    using assms(1) unfolding printscreen_steps by (auto simp: bind_eq_Some_conv)
qed

text \<open>
  \<open>printscreen\<close> returns for every state with the framebuffer at its size and a battery
  value that is not negative (a negative one indexes the font below its first glyph).
\<close>

lemma printscreen_returns:
  assumes "length (dbuf st) = DWIDTH * DLINES" and "0 \<le> sint (vcc st)"
  shows "\<exists>st'. printscreen st = Some st'"
proof -
  have len: "length (replicate 96 (0::byte)) = 96" by simp
  have f: "dbuffill 0 (dbuf st) = Some (replicate 96 0)"
    using dbuffill_ok [of "dbuf st" 0] assms(1) by (simp add: DWIDTH_def DLINES_def)
  obtain b3 where b3: "ps_time st (replicate 96 0) = Some b3" "length b3 = 96"
    using ps_time_effect [OF len, of st] by blast
  obtain b4 where b4: "ps_seconds st b3 = Some b4" "length b4 = 96"
    using ps_seconds_shown [OF b3(2), of st] ps_seconds_hidden [of st b3] b3(2)
    by (cases "setstate st < 2") auto
  obtain b5 where b5: "ps_weekday st b4 = Some b5" "length b5 = 96"
    using ps_weekday_effect [OF b4(2), of st] by blast
  obtain b6 where b6: "ps_overlay st b5 = Some b6"
    using ps_overlay_returns [OF b5(2) assms(2)] by blast
  then have "length b6 = DWIDTH * DLINES"
    using ps_overlay_effect [OF b5(2) b6] by (simp add: DWIDTH_def DLINES_def)
  then obtain w where "ddisplay b6 (wire st) = Some w" using ddisplay_ok by blast
  then show ?thesis unfolding printscreen_steps using f b3 b4 b5 b6 by simp
qed

lemma printscreen_fields:
  assumes "length (dbuf st) = DWIDTH * DLINES" and "printscreen st = Some st'"
  shows "cells (dbuf st') 0 6 = glyph_big ((unat (tim st) div 3600000) mod 24 div 10) 0
     \<and> cells (dbuf st') 32 6 = glyph_big ((unat (tim st) div 3600000) mod 24 div 10) 1
     \<and> cells (dbuf st') 8 6 = glyph_big ((unat (tim st) div 3600000) mod 24 mod 10) 0
     \<and> cells (dbuf st') 40 6 = glyph_big ((unat (tim st) div 3600000) mod 24 mod 10) 1
     \<and> cells (dbuf st') 18 6 = glyph_big ((unat (tim st) div 60000) mod 60 div 10) 0
     \<and> cells (dbuf st') 50 6 = glyph_big ((unat (tim st) div 60000) mod 60 div 10) 1
     \<and> cells (dbuf st') 26 6 = glyph_big ((unat (tim st) div 60000) mod 60 mod 10) 0
     \<and> cells (dbuf st') 58 6 = glyph_big ((unat (tim st) div 60000) mod 60 mod 10) 1
     \<and> (setstate st < 2 \<longrightarrow>
          cells (dbuf st') 64 3 = glyph_small ((unat (tim st) div 1000) mod 60 div 10)
        \<and> cells (dbuf st') 68 3 = glyph_small ((unat (tim st) div 1000) mod 60 mod 10))"
proof -
  have len: "length (dbuf st) = 96" using assms(1) by (simp add: DWIDTH_def DLINES_def)
  obtain b3 b4 b5 where s: "ps_time st (replicate 96 0) = Some b3" "ps_seconds st b3 = Some b4"
      "ps_weekday st b4 = Some b5" "ps_overlay st b5 = Some (dbuf st')"
    using printscreen_SomeD [OF assms(2) len] by blast
  have t: "length b3 = 96"
     "cells b3 0 6 = glyph_big ((unat (tim st) div 3600000) mod 24 div 10) 0"
     "cells b3 32 6 = glyph_big ((unat (tim st) div 3600000) mod 24 div 10) 1"
     "cells b3 8 6 = glyph_big ((unat (tim st) div 3600000) mod 24 mod 10) 0"
     "cells b3 40 6 = glyph_big ((unat (tim st) div 3600000) mod 24 mod 10) 1"
     "cells b3 18 6 = glyph_big ((unat (tim st) div 60000) mod 60 div 10) 0"
     "cells b3 50 6 = glyph_big ((unat (tim st) div 60000) mod 60 div 10) 1"
     "cells b3 26 6 = glyph_big ((unat (tim st) div 60000) mod 60 mod 10) 0"
     "cells b3 58 6 = glyph_big ((unat (tim st) div 60000) mod 60 mod 10) 1"
    using ps_time_effect [of "replicate 96 0" st] s(1) by simp_all
  have b4: "length b4 = 96 \<and> (\<forall>i < 64. b4 ! i = b3 ! i)
      \<and> (setstate st < 2 \<longrightarrow>
          cells b4 64 3 = glyph_small ((unat (tim st) div 1000) mod 60 div 10)
        \<and> cells b4 68 3 = glyph_small ((unat (tim st) div 1000) mod 60 mod 10))"
  proof (cases "setstate st < 2")
    case True
    then show ?thesis using ps_seconds_shown [OF t(1) True] s(2) by auto
  next
    case False
    then show ?thesis using ps_seconds_hidden [OF False, of b3] s(2) t(1) by simp
  qed
  have b5: "length b5 = 96 \<and> (\<forall>i < 75. b5 ! i = b4 ! i)"
    using ps_weekday_effect [of b4 st] b4 s(3) by auto
  have b6: "(\<forall>i < 64. dbuf st' ! i = b5 ! i)
      \<and> (setstate st \<noteq> 5 \<longrightarrow> (\<forall>i < 71. dbuf st' ! i = b5 ! i))"
    using ps_overlay_effect [OF _ s(4)] b5 by simp
  have rows: "\<forall>i < 64. dbuf st' ! i = b3 ! i" using b4 b5 b6 by simp
  have hm: "cells (dbuf st') 0 6 = cells b3 0 6" "cells (dbuf st') 32 6 = cells b3 32 6"
      "cells (dbuf st') 8 6 = cells b3 8 6" "cells (dbuf st') 40 6 = cells b3 40 6"
      "cells (dbuf st') 18 6 = cells b3 18 6" "cells (dbuf st') 50 6 = cells b3 50 6"
      "cells (dbuf st') 26 6 = cells b3 26 6" "cells (dbuf st') 58 6 = cells b3 58 6"
    by (rule cells_eqI [OF rows], simp)+
  have sec: "setstate st < 2 \<longrightarrow> cells (dbuf st') 64 3 = cells b4 64 3
      \<and> cells (dbuf st') 68 3 = cells b4 68 3"
  proof
    assume "setstate st < 2"
    then have "setstate st \<noteq> 5" by auto
    then have "\<forall>i < 71. dbuf st' ! i = b4 ! i" using b5 b6 by simp
    then show "cells (dbuf st') 64 3 = cells b4 64 3 \<and> cells (dbuf st') 68 3 = cells b4 68 3"
      by (simp add: cells_eqI [where m = 71])
  qed
  show ?thesis unfolding hm t using sec b4 by simp
qed

text \<open>
  C4. For every elapsed time, the frame that \<open>printscreen\<close> composes shows the hours
  \<open>(elapsed / 3600000) mod TIME1224\<close> and the minutes \<open>(elapsed / 60000) mod 60\<close>, and,
  in the setting states that draw seconds (0 and 1), the seconds
  \<open>(elapsed / 1000) mod 60\<close>.
\<close>

theorem printscreen_shows_time:
  assumes "length (dbuf st) = DWIDTH * DLINES" and "printscreen st = Some st'"
  shows "shows_time ((unat (tim st) div 3600000) mod unat TIME1224)
           ((unat (tim st) div 60000) mod 60) (dbuf st')
     \<and> (setstate st < 2 \<longrightarrow> shows_seconds ((unat (tim st) div 1000) mod 60) (dbuf st'))"
  using printscreen_fields [OF assms]
  by (simp add: shows_time_def shows_seconds_def TIME1224_def)

text \<open>The boundary values 0, 999, 1000, 3599999, 3600000 and 24 * 3600000 - 1.\<close>

theorem printscreen_shows_time_witness:
  "(\<exists>st'. printscreen (power_on 0\<lparr>tim := 0\<rparr>) = Some st'
      \<and> shows_time 0 0 (dbuf st') \<and> shows_seconds 0 (dbuf st'))
   \<and> (\<exists>st'. printscreen (power_on 0\<lparr>tim := 999\<rparr>) = Some st'
      \<and> shows_time 0 0 (dbuf st') \<and> shows_seconds 0 (dbuf st'))
   \<and> (\<exists>st'. printscreen (power_on 0\<lparr>tim := 1000\<rparr>) = Some st'
      \<and> shows_time 0 0 (dbuf st') \<and> shows_seconds 1 (dbuf st'))
   \<and> (\<exists>st'. printscreen (power_on 0\<lparr>tim := 3599999\<rparr>) = Some st'
      \<and> shows_time 0 59 (dbuf st') \<and> shows_seconds 59 (dbuf st'))
   \<and> (\<exists>st'. printscreen (power_on 0\<lparr>tim := 3600000\<rparr>) = Some st'
      \<and> shows_time 1 0 (dbuf st') \<and> shows_seconds 0 (dbuf st'))
   \<and> (\<exists>st'. printscreen (power_on 0\<lparr>tim := 86399999\<rparr>) = Some st'
      \<and> shows_time 23 59 (dbuf st') \<and> shows_seconds 59 (dbuf st'))"
proof -
  have w: "\<exists>st'. printscreen (power_on 0\<lparr>tim := t\<rparr>) = Some st'
     \<and> shows_time ((unat t div 3600000) mod 24) ((unat t div 60000) mod 60) (dbuf st')
     \<and> shows_seconds ((unat t div 1000) mod 60) (dbuf st')" for t
  proof -
    have l: "length (dbuf (power_on 0\<lparr>tim := t\<rparr>)) = DWIDTH * DLINES"
      by (simp add: power_on_def)
    have "0 \<le> sint (vcc (power_on 0\<lparr>tim := t\<rparr>))" by (simp add: power_on_def)
    then obtain st' where s: "printscreen (power_on 0\<lparr>tim := t\<rparr>) = Some st'"
      using printscreen_returns [OF l] by blast
    show ?thesis
      using printscreen_shows_time [OF l s] s
      by (simp add: power_on_def TIME1224_def)
  qed
  show ?thesis
    using w [of 0] w [of 999] w [of 1000] w [of 3599999] w [of 3600000] w [of 86399999]
    by simp
qed

section \<open>When the seconds are drawn\<close>

lemma digit_cases:
  assumes "(d::nat) < 10"
  shows "d \<in> {0, 1, 2, 3, 4, 5, 6, 7, 8, 9}"
  using assms by simp arith

lemma digit_first_col:
  assumes "d < 10"
  shows "font ! (3 * d) \<noteq> 0 \<and> font ! (3 * d) \<noteq> 4"
  using digit_cases [OF assms] by (elim insertE emptyE) (simp_all add: font_def)

lemma seconds_field:
  assumes "length (dbuf st) = DWIDTH * DLINES" and "printscreen st = Some st'"
  shows "(shows_seconds ((unat (tim st) div 1000) mod 60) (dbuf st') \<longleftrightarrow> setstate st < 2)
     \<and> (\<not> setstate st < 2 \<and> setstate st \<noteq> 5 \<longrightarrow>
          cells (dbuf st') 64 7 = [0, 0, 0, 0, 0, 0, 0])"
proof -
  have len: "length (dbuf st) = 96" using assms(1) by (simp add: DWIDTH_def DLINES_def)
  obtain b3 b4 b5 where s: "ps_time st (replicate 96 0) = Some b3" "ps_seconds st b3 = Some b4"
      "ps_weekday st b4 = Some b5" "ps_overlay st b5 = Some (dbuf st')"
    using printscreen_SomeD [OF assms(2) len] by blast
  have b3: "length b3 = 96 \<and> (\<forall>i. 64 \<le> i \<longrightarrow> b3 ! i = replicate 96 0 ! i)"
    using ps_time_effect [of "replicate 96 0" st] s(1) by simp
  have b5: "length b5 = 96 \<and> (\<forall>i < 75. b5 ! i = b4 ! i)"
    using ps_weekday_effect [of b4 st] ps_seconds_shown [of b3 st] ps_seconds_hidden [of st b3]
      b3 s(2) s(3)
    by (cases "setstate st < 2") auto
  have b6: "(setstate st \<noteq> 5 \<longrightarrow> (\<forall>i < 71. dbuf st' ! i = b5 ! i))
      \<and> (setstate st = 5 \<longrightarrow> dbuf st' ! 64 = 4)"
    using ps_overlay_effect [OF _ s(4)] b5 by simp
  show ?thesis
  proof (cases "setstate st < 2")
    case True
    then have "setstate st \<noteq> 5" by auto
    then have "\<forall>i < 71. dbuf st' ! i = b4 ! i" using b5 b6 by simp
    then have "cells (dbuf st') 64 3 = cells b4 64 3 \<and> cells (dbuf st') 68 3 = cells b4 68 3"
      by (simp add: cells_eqI [where m = 71])
    then show ?thesis using ps_seconds_shown [of b3 st] True b3 s(2)
      by (auto simp: shows_seconds_def)
  next
    case False
    then have e: "b4 = b3" using ps_seconds_hidden [OF False, of b3] s(2) by simp
    have z: "\<forall>i. 64 \<le> i \<and> i < 71 \<longrightarrow> b5 ! i = 0" using b3 b5 e by simp
    have "(unat (tim st) div 1000) mod 60 div 10 < 10" by simp
    then have d: "font ! (3 * ((unat (tim st) div 1000) mod 60 div 10)) \<noteq> 0
        \<and> font ! (3 * ((unat (tim st) div 1000) mod 60 div 10)) \<noteq> 4"
      by (rule digit_first_col)
    have "dbuf st' ! 64 = 0 \<or> dbuf st' ! 64 = 4"
      using b6 z by (cases "setstate st = 5") simp_all
    then have "\<not> shows_seconds ((unat (tim st) div 1000) mod 60) (dbuf st')"
      using d by (auto simp: shows_seconds_def cells_3 glyph_small_def)
    moreover have "setstate st \<noteq> 5 \<longrightarrow> cells (dbuf st') 64 7 = [0, 0, 0, 0, 0, 0, 0]"
      using b6 z by (simp add: cells_7)
    ultimately show ?thesis using False by simp
  qed
qed

text \<open>
  C1, as the specification states it, in setting state 1 (reset seconds), which is not
  the state NONE: at an elapsed time of 125743 ms the composed frame shows the seconds 05.
\<close>

theorem seconds_in_state_1_counterexample:
  "map_option (shows_seconds 5 \<circ> dbuf)
      (printscreen (power_on 0\<lparr>tim := 125743, setstate := 1\<rparr>)) = Some True
   \<and> setstate (power_on 0\<lparr>tim := 125743, setstate := 1\<rparr>) = 1"
proof -
  let ?a = "power_on 0\<lparr>tim := 125743, setstate := 1\<rparr>"
  have la: "length (dbuf ?a) = DWIDTH * DLINES" by (simp add: power_on_def)
  obtain a' where a: "printscreen ?a = Some a'"
    using printscreen_returns [OF la] by (auto simp: power_on_def)
  have "shows_seconds 5 (dbuf a')"
    using seconds_field [OF la a] by (simp add: power_on_def)
  then show ?thesis using a by (simp add: power_on_def)
qed

text \<open>
  C1, amended. For every elapsed time, weekday and battery value for which
  \<open>printscreen\<close> returns, the composed frame shows the seconds digits if and only if the
  setting state is 0 or 1 (\<open>setstate < 2\<close>: none, or reset seconds). In every other
  state no seconds are drawn: the seconds field is blank, except in state 5 (add ten
  hours), whose setting arrows occupy it.
\<close>

theorem seconds_shown_iff:
  assumes "length (dbuf st) = DWIDTH * DLINES" and "printscreen st = Some st'"
  shows "(shows_seconds ((unat (tim st) div 1000) mod 60) (dbuf st') \<longleftrightarrow> setstate st < 2)
     \<and> (\<not> setstate st < 2 \<and> setstate st \<noteq> 5 \<longrightarrow>
          cells (dbuf st') 64 7 = [0, 0, 0, 0, 0, 0, 0])"
  using assms by (rule seconds_field)

theorem seconds_shown_iff_witness:
  "(\<exists>st'. printscreen (power_on 0\<lparr>tim := 125743\<rparr>) = Some st' \<and> shows_seconds 5 (dbuf st'))
   \<and> (\<exists>st'. printscreen (power_on 0\<lparr>tim := 125743, setstate := 3\<rparr>) = Some st'
        \<and> \<not> shows_seconds 5 (dbuf st') \<and> cells (dbuf st') 64 7 = [0, 0, 0, 0, 0, 0, 0])"
proof -
  let ?a = "power_on 0\<lparr>tim := 125743\<rparr>"
    and ?b = "power_on 0\<lparr>tim := 125743, setstate := 3\<rparr>"
  have la: "length (dbuf ?a) = DWIDTH * DLINES" and lb: "length (dbuf ?b) = DWIDTH * DLINES"
    by (simp_all add: power_on_def)
  obtain a' where a: "printscreen ?a = Some a'"
    using printscreen_returns [OF la] by (auto simp: power_on_def)
  obtain b' where b: "printscreen ?b = Some b'"
    using printscreen_returns [OF lb] by (auto simp: power_on_def)
  show ?thesis
    using seconds_shown_iff [OF la a] seconds_shown_iff [OF lb b] a b
    by (simp add: power_on_def)
qed

section \<open>The weekday\<close>

lemma weekday_delayshort [simp]: "weekday (delayshort ms st) = weekday st"
  by (simp add: delayshort_def)

lemma weekday_delaylong_loop [simp]: "weekday (delaylong_loop n st) = weekday st"
  by (induction n arbitrary: st) simp_all

lemma weekday_shortpress:
  "weekday (shortpress st)
     = (if setstate st = 6 then (if weekday st > 5 then 0 else weekday st + 1) else weekday st)"
  by (simp add: shortpress_def)

lemma printscreen_weekday:
  assumes "length (dbuf st) = DWIDTH * DLINES" and "printscreen st = Some st'"
  shows "weekday st' = (if setstate st = 0 \<or> setstate st = 6
      then word_of_nat ((unat (tim st) div 86400000) mod 7) else weekday st)"
proof -
  have len: "length (dbuf st) = 96" using assms(1) by (simp add: DWIDTH_def DLINES_def)
  have "weekday st' = wd_shown st" using printscreen_SomeD [OF assms(2) len] by blast
  moreover have "word_of_nat (unat (ucast ((tim st div 1000 div 60 div 60 div 24) mod 7) :: byte))
      = (ucast ((tim st div 1000 div 60 div 60 div 24) mod 7) :: byte)"
    by simp
  then have "(ucast ((tim st div 1000 div 60 div 60 div 24) mod 7) :: byte)
      = word_of_nat ((unat (tim st) div 86400000) mod 7)"
    by (simp only: unat_day)
  ultimately show ?thesis by (simp add: wd_shown_def)
qed

text \<open>
  In setting state 6 the increment of a short press does not reach the next frame:
  \<open>printscreen\<close> in that state assigns \<open>weekday\<close> from the elapsed time before it draws
  it, as it does in state 0.
\<close>

lemma add_day_overwritten:
  assumes "length (dbuf st) = DWIDTH * DLINES" and "setstate st = 6"
    and "printscreen (shortpress st) = Some st'"
  shows "weekday st' = word_of_nat ((unat (tim st) div 86400000) mod 7)"
proof -
  have "shortpress st = st\<lparr>weekday := (if weekday st > 5 then 0 else weekday st + 1)\<rparr>"
    using assms(2) by (simp add: shortpress_def)
  then have "length (dbuf (shortpress st)) = DWIDTH * DLINES" "setstate (shortpress st) = 6"
    "tim (shortpress st) = tim st"
    using assms(1,2) by simp_all
  then show ?thesis using printscreen_weekday [OF _ assms(3)] by simp
qed

section \<open>The passes of loop\<close>

lemma poll_from:
  "k \<le> unat ms \<Longrightarrow> delayshort_poll t ms (t + word_of_nat k) = t + ucast ms"
proof (induction "unat ms - k" arbitrary: k)
  case 0
  then have k: "k = unat ms" by simp
  have "(ucast (word_of_nat k :: ulong) :: byte) = ms" unfolding k
    by (simp add: ucast_up_ucast_id is_up)
  then show ?case
    by (subst delayshort_poll.simps) (simp add: k)
next
  case (Suc n)
  then have lt: "k < unat ms" by simp
  have "(ucast (word_of_nat k :: ulong) :: byte) = word_of_nat k"
    by (simp add: word_eq_iff_unsigned [where ?'a = nat] unsigned_ucast_eq unat_of_nat
        take_bit_eq_mod mod_mod_cancel)
  moreover have "(word_of_nat k :: byte) < ms" using lt
    by (simp add: word_less_nat_alt unat_of_nat)
  ultimately have c: "(ucast (t + word_of_nat k - t) :: byte) < ms" by simp
  have "delayshort_poll t ms (t + word_of_nat (Suc k)) = t + ucast ms"
  proof (rule Suc.hyps(1))
    show "n = unat ms - Suc k" using Suc.hyps(2) by simp
    show "Suc k \<le> unat ms" using lt by simp
  qed
  moreover have "t + word_of_nat k + 1 = t + word_of_nat (Suc k)" by simp
  ultimately show ?case using c by (subst delayshort_poll.simps) (simp only: if_True)
qed

text \<open>The busy-wait ends, \<open>ms\<close> milliseconds later on the clock.\<close>

lemma delayshort_millis: "millis (delayshort ms st) = millis st + ucast ms"
  using poll_from [of 0 ms "millis st"] by (simp add: delayshort_def)

lemma printscreen_keeps:
  assumes "printscreen st = Some st'"
  shows "tim st' = tim st \<and> setstate st' = setstate st \<and> issleep st' = issleep st
     \<and> outtime st' = outtime st \<and> millis st' = millis st \<and> wdtmillis st' = wdtmillis st"
  using assms unfolding printscreen_steps by (auto simp: bind_eq_Some_conv)

lemma loop_asleep: "issleep st \<Longrightarrow> loop inp st = Some st"
  by (simp add: loop_def sleep_def)

lemma loop_press:
  assumes "loop inp st = Some st'" and "\<not> issleep st" and "\<not> outtime st < millis st"
    and "btn_first inp"
  shows "setstate st' = (if btn_second inp
            then (if setstate st > 5 then 0 else setstate st + 1) else setstate st)
     \<and> tim st' = (if btn_second inp then tim (drain st)
            else tim (shortpress (drain st)))"
proof -
  obtain st1 st3 v where s: "printscreen (drain st) = Some st1"
    "batt (adcl inp) (adch inp) (delaylong 2 (setdtimeout st1)) = Some (st3, v)"
    "st' = (if btn_second inp then longpress (st3\<lparr>vcc := v\<rparr>) else shortpress (st3\<lparr>vcc := v\<rparr>))"
    using assms by (auto simp: loop_def bind_eq_Some_conv Let_def split: if_splits)
  have k: "tim st1 = tim (drain st)" "setstate st1 = setstate st"
    using printscreen_keeps [OF s(1)] by (simp_all add: drain_def)
  have st3: "st3 = delayshort 2 (delaylong 2 (setdtimeout st1))"
    using s(2) by (auto simp: batt_def Let_def split: if_splits)
  have tl: "tim (delaylong_loop n x) = tim x" for n x
    by (induction n arbitrary: x) (simp_all add: delayshort_def)
  have k3: "tim st3 = tim (drain st)" "setstate st3 = setstate st"
    unfolding st3 using k by (simp_all add: delayshort_def delaylong_def setdtimeout_def tl)
  show ?thesis
  proof (cases "btn_second inp")
    case True
    then show ?thesis using s(3) k3
      by (simp add: longpress_def delaylong_def Let_def tl)
  next
    case False
    then have "st' = shortpress (st3\<lparr>vcc := v\<rparr>)" using s(3) by simp
    then show ?thesis using False k3 by (simp add: shortpress_def drain_def)
  qed
qed

lemma printscreen_length:
  assumes "length (dbuf st) = DWIDTH * DLINES" and "printscreen st = Some st'"
  shows "length (dbuf st') = DWIDTH * DLINES"
proof -
  have len: "length (dbuf st) = 96" using assms(1) by (simp add: DWIDTH_def DLINES_def)
  obtain b3 b4 b5 where s: "ps_time st (replicate 96 0) = Some b3" "ps_seconds st b3 = Some b4"
      "ps_weekday st b4 = Some b5" "ps_overlay st b5 = Some (dbuf st')"
    using printscreen_SomeD [OF assms(2) len] by blast
  have "length b3 = 96" using ps_time_effect [of "replicate 96 0" st] s(1) by simp
  then have "length b4 = 96"
    using ps_seconds_shown [of b3 st] ps_seconds_hidden [of st b3] s(2)
    by (cases "setstate st < 2") auto
  then have "length b5 = 96" using ps_weekday_effect [of b4 st] s(3) by auto
  then show ?thesis using ps_overlay_effect [OF _ s(4)] by (simp add: DWIDTH_def DLINES_def)
qed

lemma delaylong_2: "delaylong 2 st = delayshort 250 (delayshort 250 st)"
  unfolding delaylong_def unat_byte_2 by (simp add: numeral_2_eq_2)

lemma poll_start: "delayshort_poll t ms t = t + ucast ms"
  using poll_from [of 0 ms t] by simp

text \<open>
  A pass of \<open>loop\<close> with a short press, awake and not past the deadline, with a battery
  value that is not negative and a converter reading that is not zero: the pass returns;
  the elapsed time is that of the short press on the drained state; and in setting state
  6 the weekday it leaves is the day of the elapsed time plus one (6 wrapping to 0),
  whatever the weekday was before the pass.
\<close>

lemma loop_short_pass:
  assumes "\<not> issleep st" and "\<not> outtime st < millis st"
    and "btn_first inp" and "\<not> btn_second inp"
    and "length (dbuf st) = DWIDTH * DLINES" and "0 \<le> sint (vcc st)"
    and "sint ((push_bit 8 (ucast (adch inp)) OR ucast (adcl inp)) :: int16) \<noteq> 0"
  shows "\<exists>st'. loop inp st = Some st'
     \<and> \<not> issleep st' \<and> length (dbuf st') = DWIDTH * DLINES
     \<and> setstate st' = setstate st
     \<and> tim st' = tim (shortpress (drain st))
     \<and> wdtmillis st' = 0
     \<and> outtime st' = millis st + TIMEOUT
     \<and> millis st' = millis st + 502
     \<and> vcc st' = word_of_int (112530 sdiv
           sint ((push_bit 8 (ucast (adch inp)) OR ucast (adcl inp)) :: int16))
     \<and> (setstate st = 6 \<longrightarrow> weekday st'
           = (if (5::byte) < word_of_nat ((unat (tim (drain st)) div 86400000) mod 7) then 0
              else word_of_nat ((unat (tim (drain st)) div 86400000) mod 7) + 1))"
proof -
  let ?d = "sint ((push_bit 8 (ucast (adch inp)) OR ucast (adcl inp)) :: int16)"
  have l: "length (dbuf (drain st)) = DWIDTH * DLINES" using assms(5) by (simp add: drain_def)
  have "0 \<le> sint (vcc (drain st))" using assms(6) by (simp add: drain_def)
  then obtain st1 where p: "printscreen (drain st) = Some st1"
    using printscreen_returns [OF l] by blast
  have k: "tim st1 = tim (drain st)" "setstate st1 = setstate st" "issleep st1 = issleep st"
    "millis st1 = millis st" "wdtmillis st1 = 0"
    using printscreen_keeps [OF p] by (simp_all add: drain_def)
  have len1: "length (dbuf st1) = DWIDTH * DLINES" by (rule printscreen_length [OF l p])
  have w1: "weekday st1 = (if setstate st = 0 \<or> setstate st = 6
      then word_of_nat ((unat (tim (drain st)) div 86400000) mod 7) else weekday st)"
    using printscreen_weekday [OF l p] by (simp add: drain_def)
  let ?st3 = "delayshort 2 (delaylong 2 (setdtimeout st1))"
  let ?v = "word_of_int (112530 sdiv ?d) :: int16"
  have b: "batt (adcl inp) (adch inp) (delaylong 2 (setdtimeout st1)) = Some (?st3, ?v)"
    using assms(7) by (simp add: batt_def Let_def)
  have lp: "loop inp st = Some (shortpress (?st3\<lparr>vcc := ?v\<rparr>))"
    using assms(1-4) p b by (simp add: loop_def)
  have f: "?st3 = st1\<lparr>outtime := millis st + TIMEOUT, millis := millis st + 502\<rparr>"
    using k(4) by (simp add: delaylong_2 setdtimeout_def delayshort_def poll_start)
  have sp: "setstate (?st3\<lparr>vcc := ?v\<rparr>) = setstate st"
    "tim (?st3\<lparr>vcc := ?v\<rparr>) = tim (drain st)"
    "weekday (?st3\<lparr>vcc := ?v\<rparr>) = weekday st1"
    unfolding f using k by simp_all
  have t: "tim (shortpress (?st3\<lparr>vcc := ?v\<rparr>)) = tim (shortpress (drain st))"
    using sp by (simp add: shortpress_def drain_def)
  have r: "\<not> issleep (shortpress (?st3\<lparr>vcc := ?v\<rparr>))"
    "length (dbuf (shortpress (?st3\<lparr>vcc := ?v\<rparr>))) = DWIDTH * DLINES"
    "setstate (shortpress (?st3\<lparr>vcc := ?v\<rparr>)) = setstate st"
    "wdtmillis (shortpress (?st3\<lparr>vcc := ?v\<rparr>)) = 0"
    "outtime (shortpress (?st3\<lparr>vcc := ?v\<rparr>)) = millis st + TIMEOUT"
    "millis (shortpress (?st3\<lparr>vcc := ?v\<rparr>)) = millis st + 502"
    "vcc (shortpress (?st3\<lparr>vcc := ?v\<rparr>)) = ?v"
    unfolding f using k assms(1) len1 by (simp_all add: shortpress_def)
  have w: "setstate st = 6 \<longrightarrow> weekday (shortpress (?st3\<lparr>vcc := ?v\<rparr>))
           = (if (5::byte) < word_of_nat ((unat (tim (drain st)) div 86400000) mod 7) then 0
              else word_of_nat ((unat (tim (drain st)) div 86400000) mod 7) + 1)"
    using sp w1 by (simp add: weekday_shortpress)
  show ?thesis unfolding lp using r t w
    by (intro exI [of _ "shortpress (?st3\<lparr>vcc := ?v\<rparr>)"] conjI refl)
qed

text \<open>A pass of \<open>loop\<close> with no press, awake and not past the deadline, is \<open>printscreen\<close>.\<close>

lemma loop_idle_pass:
  assumes "\<not> issleep st" and "\<not> outtime st < millis st" and "\<not> btn_first inp"
  shows "loop inp st = printscreen (drain st)"
  using assms by (simp add: loop_def)

section \<open>Add one day\<close>

text \<open>
  The inputs of a pass with a short press (button low at the first read, high at the
  second, converter reading 200) and of a pass with no press.
\<close>

definition day_press :: inputs where
  "day_press = \<lparr>btn_first = True, btn_second = False, adcl = 200, adch = 0\<rparr>"

definition no_press :: inputs where
  "no_press = \<lparr>btn_first = False, btn_second = False, adcl = 200, adch = 0\<rparr>"

text \<open>
  C2. The weekday is to be a counter in 0..6 of its own that only a short press in
  setting state 6 (add day) advances, so that repeated such presses cycle it
  0, 1, \<dots>, 6, 0. The program does not do this. From the state after reset put in
  setting state 6 (elapsed time 0, weekday 0), one, two and three passes of \<open>loop\<close> with
  a short press each leave \<open>weekday = 1\<close> every time, not 1, 2, 3; and a pass with no
  press after the first press leaves \<open>weekday = 0\<close> again: \<open>printscreen\<close>, which every
  pass runs before it reads the button, assigns the weekday from the elapsed time in
  that state.
\<close>

theorem add_day_press_lost:
  "map_option weekday (loop day_press (power_on 0\<lparr>setstate := 6\<rparr>)) = Some 1
   \<and> map_option weekday (loop day_press (power_on 0\<lparr>setstate := 6\<rparr>) \<bind> loop day_press)
       = Some 1
   \<and> map_option weekday
        (loop day_press (power_on 0\<lparr>setstate := 6\<rparr>) \<bind> loop day_press \<bind> loop day_press)
       = Some 1
   \<and> map_option weekday (loop day_press (power_on 0\<lparr>setstate := 6\<rparr>) \<bind> loop no_press)
       = Some 0"
proof -
  let ?s0 = "power_on 0\<lparr>setstate := 6\<rparr>"
  have d: "sint ((push_bit 8 (ucast (adch day_press)) OR ucast (adcl day_press)) :: int16) = 200"
    by (simp add: day_press_def)
  have b: "btn_first day_press" "\<not> btn_second day_press" "\<not> btn_first no_press"
    by (simp_all add: day_press_def no_press_def)
  have v: "sint (word_of_int (112530 sdiv 200) :: int16) = 562"
    by (simp add: signed_divide_int_def)
  obtain s1 where s1: "loop day_press ?s0 = Some s1" "\<not> issleep s1"
    "length (dbuf s1) = DWIDTH * DLINES" "setstate s1 = 6" "tim s1 = 0" "wdtmillis s1 = 0"
    "outtime s1 = TIMEOUT" "millis s1 = 502" "sint (vcc s1) = 562" "weekday s1 = 1"
    using loop_short_pass [of ?s0 day_press] b d v
    by (auto simp: power_on_def shortpress_def drain_def)
  obtain s2 where s2: "loop day_press s1 = Some s2" "\<not> issleep s2"
    "length (dbuf s2) = DWIDTH * DLINES" "setstate s2 = 6" "tim s2 = 0" "wdtmillis s2 = 0"
    "outtime s2 = 502 + TIMEOUT" "millis s2 = 1004" "sint (vcc s2) = 562" "weekday s2 = 1"
    using loop_short_pass [of s1 day_press] b d v s1
    by (auto simp: shortpress_def drain_def TIMEOUT_def)
  obtain s3 where s3: "loop day_press s2 = Some s3" "weekday s3 = 1"
    using loop_short_pass [of s2 day_press] b d v s2
    by (auto simp: shortpress_def drain_def TIMEOUT_def)
  have i: "loop no_press s1 = printscreen (drain s1)"
    using loop_idle_pass [of s1 no_press] b(3) s1 by (simp add: TIMEOUT_def)
  have l: "length (dbuf (drain s1)) = DWIDTH * DLINES" using s1(3) by (simp add: drain_def)
  have "0 \<le> sint (vcc (drain s1))" using s1(9) by (simp add: drain_def)
  then obtain s4 where s4: "printscreen (drain s1) = Some s4"
    using printscreen_returns [OF l] by blast
  have "weekday s4 = 0"
    using printscreen_weekday [OF l s4] s1 by (simp add: drain_def)
  then show ?thesis using s1 s2 s3 s4 i by simp
qed

end
